theory Spec2Isabelle
  imports Main "HOL-Library.Multiset" "HOL-Library.List_Lexorder"
begin

section \<open>Strings\<close>

text \<open>
  A Python \<open>str\<close> is a sequence of Unicode code points, and \<open>len\<close> counts code points.
  A code point is modelled as a natural number, a string as a list of them; comparison
  of strings is the lexicographic order on code points, as in Python.
  \<open>lit\<close> turns an ASCII literal into such a string.
\<close>

type_synonym codepoint = nat
type_synonym str = "codepoint list"

definition lit :: "string \<Rightarrow> str" where
  "lit s = map of_char s"

text \<open>
  \<open>isspace\<close> is the whitespace test that \<open>str.strip()\<close> without arguments applies to each
  code point: the ASCII controls U+0009..U+000D and U+001C..U+001F, the space, and the
  Unicode separators.
\<close>

definition isspace :: "codepoint \<Rightarrow> bool" where
  "isspace c \<longleftrightarrow>
     (0x09 \<le> c \<and> c \<le> 0x0D) \<or> (0x1C \<le> c \<and> c \<le> 0x20) \<or> c = 0x85 \<or> c = 0xA0 \<or>
     c = 0x1680 \<or> (0x2000 \<le> c \<and> c \<le> 0x200A) \<or> c = 0x2028 \<or> c = 0x2029 \<or>
     c = 0x202F \<or> c = 0x205F \<or> c = 0x3000"

definition lstrip :: "str \<Rightarrow> str" where
  "lstrip s = dropWhile isspace s"

definition rstrip :: "str \<Rightarrow> str" where
  "rstrip s = rev (dropWhile isspace (rev s))"

definition strip :: "str \<Rightarrow> str" where
  "strip s = rstrip (lstrip s)"

text \<open>\<open>startswith s p\<close> is \<open>s.startswith(p)\<close>.\<close>

definition startswith :: "str \<Rightarrow> str \<Rightarrow> bool" where
  "startswith s p \<longleftrightarrow> take (length p) s = p"

text \<open>\<open>decimal n\<close> is what the format field \<open>{n}\<close> of an f-string prints for \<open>n \<ge> 0\<close>.\<close>

fun decimal :: "nat \<Rightarrow> str" where
  "decimal n = (if n < 10 then [48 + n] else decimal (n div 10) @ [48 + n mod 10])"

declare decimal.simps [simp del]

section \<open>Sheet naming policy\<close>

text \<open>The characters a worksheet name may not contain: \<open>: \ / ? * [ ]\<close>.\<close>

definition illegal :: "codepoint set" where
  "illegal = set (lit [CHR '':'', CHR 0x5C, CHR ''/'', CHR ''?'', CHR ''*'', CHR ''['', CHR '']''])"

text \<open>
  \<open>sanitize_sheet_name\<close>: the generator maps every character of the name to a
  one-character string, \<open>"".join\<close> concatenates them, \<open>strip()\<close> trims, and
  \<open>cleaned or "Sheet"\<close> replaces the empty string.
\<close>

definition sanitize_sheet_name :: "str \<Rightarrow> str" where
  "sanitize_sheet_name name =
     (let cleaned = strip (concat (map (\<lambda>ch. if ch \<in> illegal then lit ''_'' else [ch]) name))
      in if cleaned = [] then lit ''Sheet'' else cleaned)"

text \<open>
  \<open>truncate_sheet_name\<close> is the slice \<open>name[:max_len]\<close>; a negative bound counts from the
  end of the string, as Python slices do.
\<close>

definition truncate_sheet_name :: "str \<Rightarrow> int \<Rightarrow> str" where
  "truncate_sheet_name name max_len =
     (if 0 \<le> max_len then take (nat max_len) name
      else take (nat (int (length name) + max_len)) name)"

datatype error =
    NameSpaceExhausted  \<comment> \<open>\<open>RuntimeError("Failed to generate a unique sheet name.")\<close>\<close>
  | ScriptNotFound      \<comment> \<open>\<open>RuntimeError\<close>: the merge script is missing\<close>
  | ProcessFailed int   \<comment> \<open>\<open>RuntimeError\<close>: the script process failed with this exit code\<close>
  | Com_error           \<comment> \<open>a call to the spreadsheet application raised\<close>
  | Os_error            \<comment> \<open>\<open>OSError\<close>: a directory, a file or the process could not be made\<close>
  | Broken_pipe         \<comment> \<open>\<open>BrokenPipeError\<close>: a write to the process that has ended\<close>

text \<open>
  The loop \<open>for n in range(2, 10000)\<close> of \<open>make_unique_sheet_name\<close>, from \<open>n\<close> on.
\<close>

function probe :: "str set \<Rightarrow> str \<Rightarrow> nat \<Rightarrow> error + str" where
  "probe existing_names base n =
     (if n < 10000 then
        (let suffix = lit ''_'' @ decimal n;
             max_base = 31 - int (length suffix);
             candidate = truncate_sheet_name base max_base @ suffix
         in if candidate \<notin> existing_names then Inr candidate
            else probe existing_names base (Suc n))
      else Inl NameSpaceExhausted)"
  by pat_completeness auto
termination
  by (relation "measure (\<lambda>(E, b, n). 10000 - n)") auto

declare probe.simps [simp del]

definition make_unique_sheet_name :: "str set \<Rightarrow> str \<Rightarrow> error + str" where
  "make_unique_sheet_name existing_names desired =
     (let base = truncate_sheet_name (sanitize_sheet_name desired) 31
      in if base \<notin> existing_names then Inr base
         else probe existing_names base 2)"

text \<open>
  The \<open>n\<close>-th candidate as the specification words it: the base cut so that base and
  suffix \<open>_n\<close> together fit in 31 characters, followed by the suffix.
\<close>

definition suffixed :: "str \<Rightarrow> nat \<Rightarrow> str" where
  "suffixed base n = take (31 - length (lit ''_'' @ decimal n)) base @ lit ''_'' @ decimal n"

section \<open>The interpreter's library\<close>

text \<open>
  Three library functions are taken as parameters of the model, since what they compute
  is fixed by the interpreter and the platform, not by this program:
  \<open>str_lower\<close> is \<open>str.lower()\<close> (the Unicode case mapping), \<open>Path_name\<close> is
  \<open>Path(s).name\<close> (the final component of a path, in the platform's flavour), and
  \<open>py_int\<close> is \<open>int(s)\<close> on a string, \<open>None\<close> where it raises \<open>ValueError\<close>.
  Every theorem below holds for all three; \<open>ascii_lib\<close> is an instance that agrees with
  Python on ASCII input, used to evaluate the model on concrete inputs.
\<close>

record pylib =
  str_lower :: "str \<Rightarrow> str"
  Path_name :: "str \<Rightarrow> str"
  py_int :: "str \<Rightarrow> int option"

definition ascii_lower :: "str \<Rightarrow> str" where
  "ascii_lower s = map (\<lambda>c. if 65 \<le> c \<and> c \<le> 90 then c + 32 else c) s"

text \<open>The component after the last \<open>/\<close> or \<open>\\<close> of a path.\<close>

definition last_component :: "str \<Rightarrow> str" where
  "last_component s = rev (takeWhile (\<lambda>c. c \<noteq> 47 \<and> c \<noteq> 92) (rev s))"

fun digits_value :: "str \<Rightarrow> nat \<Rightarrow> nat option" where
  "digits_value [] acc = Some acc"
| "digits_value (c # cs) acc =
     (if 48 \<le> c \<and> c \<le> 57 then digits_value cs (10 * acc + (c - 48)) else None)"

text \<open>Decimal numerals, with an optional sign and surrounding whitespace.\<close>

definition ascii_int :: "str \<Rightarrow> int option" where
  "ascii_int s =
     (let t = strip s;
          neg = (t \<noteq> [] \<and> hd t = 45);
          body = (if t \<noteq> [] \<and> (hd t = 45 \<or> hd t = 43) then tl t else t)
      in if body = [] then None
         else map_option (\<lambda>v. if neg then - int v else int v) (digits_value body 0))"

definition ascii_lib :: pylib where
  "ascii_lib = \<lparr>str_lower = ascii_lower, Path_name = last_component, py_int = ascii_int\<rparr>"

section \<open>Recognising and listing workbooks\<close>

text \<open>A directory entry: what \<open>is_dir()\<close> and \<open>name\<close> answer for a \<open>Path\<close>.\<close>

record path =
  is_dir :: bool
  name :: str

text \<open>\<open>rfind c s\<close> is \<open>s.rfind(c)\<close> for a character: its last index, or \<open>-1\<close>.\<close>

fun rfind :: "codepoint \<Rightarrow> str \<Rightarrow> int" where
  "rfind c [] = - 1"
| "rfind c (x # xs) =
     (let r = rfind c xs in if 0 \<le> r then r + 1 else if x = c then 0 else - 1)"

text \<open>
  \<open>path_suffix\<close> is pathlib's \<open>suffix\<close> of a final component: with \<open>i = name.rfind('.')\<close>,
  the part \<open>name[i:]\<close> when \<open>0 < i < len(name) - 1\<close>, and the empty string otherwise.
\<close>

definition path_suffix :: "str \<Rightarrow> str" where
  "path_suffix nm =
     (let i = rfind 46 nm
      in if 0 < i \<and> i < int (length nm) - 1 then drop (nat i) nm else [])"

definition EXCEL_EXTS :: "str set" where
  "EXCEL_EXTS = {lit ''.xls'', lit ''.xlsx'', lit ''.xlsm'', lit ''.xlsb''}"

definition is_excel_file :: "pylib \<Rightarrow> path \<Rightarrow> bool" where
  "is_excel_file L p =
     (if is_dir p then False
      else if startswith (name p) (lit ''~$'') then False
      else str_lower L (path_suffix (name p)) \<in> EXCEL_EXTS)"

text \<open>
  The list \<open>files\<close> of \<open>_refresh_list\<close> (and \<open>all_files\<close> of \<open>_start_merge\<close>), from the
  entries \<open>folder.iterdir()\<close> yields, in the order it yields them. \<open>sorted\<close> is stable, as
  \<open>sort_key\<close> is.
\<close>

definition refresh_list :: "pylib \<Rightarrow> path list \<Rightarrow> path list" where
  "refresh_list L entries =
     sort_key (\<lambda>p. str_lower L (name p)) (filter (is_excel_file L) entries)"

text \<open>A listing to run the scan on.\<close>

definition example_listing :: "path list" where
  "example_listing =
     [\<lparr>is_dir = False, name = lit ''b.XLSX''\<rparr>, \<lparr>is_dir = True, name = lit ''d.xlsx''\<rparr>,
      \<lparr>is_dir = False, name = lit ''~$a.xls''\<rparr>, \<lparr>is_dir = False, name = lit ''a.xls''\<rparr>,
      \<lparr>is_dir = False, name = lit ''n.txt''\<rparr>]"

section \<open>File formats\<close>

definition fileformat_for_path :: "pylib \<Rightarrow> str \<Rightarrow> int" where
  "fileformat_for_path L p =
     (let ext = str_lower L (path_suffix (Path_name L p))
      in if ext = lit ''.xlsx'' then 51
         else if ext = lit ''.xlsm'' then 52
         else if ext = lit ''.xlsb'' then 50
         else if ext = lit ''.xls'' then 56
         else 51)"

section \<open>Events and traces\<close>

text \<open>The payload of \<open>("done", ...)\<close>: \<open>"saved"\<close>, \<open>"nosave"\<close>, \<open>"cancelled"\<close>, \<open>"error"\<close>.\<close>

datatype status = Saved | NoSave | Cancelled | Error

text \<open>
  The text of a log line. The fixed messages of the program are named by what they
  report; \<open>Line\<close> is text forwarded from the script process.
\<close>

datatype logmsg =
    Line str
  | File_count nat
  | Script_file_count nat
  | Cancelling
  | Opening str
  | Copied str str
  | Warn str
  | Merged
  | Save_declined
  | Saved_to str
  | Save_failed
  | Fatal error

text \<open>What the worker puts on \<open>ui_queue\<close>.\<close>

datatype event =
    Log logmsg
  | Progress int int str
  | Request_save str
  | Error_ev error
  | Done status

text \<open>
  A run is observed through its trace: the events put on the queue, in order, together
  with the commands sent to the spreadsheet application and the lines written to the
  script process. \<open>Delete_sheet i n\<close> is a successful \<open>Delete()\<close> of sheet \<open>i\<close>, where \<open>n\<close>
  is the \<open>Worksheets.Count\<close> the program read just before; \<open>SaveAs p fmt ok\<close> records
  whether the call returned (\<open>ok\<close>) or raised.
\<close>

datatype action =
    Put event
  | Delete_sheet nat nat
  | SaveAs str int bool
  | Close_unsaved
  | Quit
  | Stdin_write str

text \<open>How a call of \<open>_run_impl\<close> ends; \<open>Blocked\<close> is waiting for ever on \<open>save_queue.get()\<close>.\<close>

datatype outcome = Returned | Raised error | Blocked

definition progress_events :: "action list \<Rightarrow> (int \<times> int \<times> str) list" where
  "progress_events tr =
     concat (map (\<lambda>a. case a of Put (Progress c t f) \<Rightarrow> [(c, t, f)] | _ \<Rightarrow> []) tr)"

definition save_requests :: "action list \<Rightarrow> str list" where
  "save_requests tr = concat (map (\<lambda>a. case a of Put (Request_save s) \<Rightarrow> [s] | _ \<Rightarrow> []) tr)"

definition done_statuses :: "action list \<Rightarrow> status list" where
  "done_statuses tr = concat (map (\<lambda>a. case a of Put (Done s) \<Rightarrow> [s] | _ \<Rightarrow> []) tr)"

definition saved_paths :: "action list \<Rightarrow> str list" where
  "saved_paths tr = concat (map (\<lambda>a. case a of SaveAs p fmt True \<Rightarrow> [p] | _ \<Rightarrow> []) tr)"

section \<open>The primary strategy\<close>

text \<open>
  The destination workbook is the list of its sheets, each an identity and a name.
  What the spreadsheet application answers is the environment of a run: for every
  worksheet of a source workbook its name, whether the cancel flag is set at the check
  before it, the name the application gives the fresh copy (\<open>None\<close> when \<open>Copy\<close>
  raises), and whether the two assignments to \<open>copied.Name\<close> succeed.

  The calls that may raise are: the start (\<open>DispatchEx\<close>, the four settings outside a
  \<open>try\<close>, \<open>Workbooks.Add\<close>), which no handler of \<open>_run_impl\<close> guards; \<open>Workbooks.Open\<close>,
  \<open>Copy\<close>, the assignments to \<open>copied.Name\<close>, \<open>Delete\<close> and \<open>SaveAs\<close>, which are guarded;
  and \<open>Close\<close> and \<open>Quit\<close> before the status is put, which are not. Reading a property
  (a name, a count) is taken to return. The calls of the \<open>finally\<close> blocks put nothing on
  the queue and are left out. The cancel flag is read at each check from the environment.
\<close>

type_synonym sheet = "nat \<times> str"
type_synonym workbook = "sheet list"

record src_sheet =
  ws_name :: str
  cancel_at_sheet :: bool
  copy_result :: "str option"
  rename_ok :: bool
  retry_ok :: bool

text \<open>
  A source file: its path, whether the cancel flag is set at the check before it, and
  its worksheets (\<open>None\<close> when \<open>Workbooks.Open\<close> raises).
\<close>

record src_file =
  src_path :: path
  cancel_at_file :: bool
  worksheets :: "src_sheet list option"

text \<open>
  An answer on \<open>save_queue\<close>: \<open>None\<close> aborts; a path comes with whether \<open>SaveAs\<close> to it
  succeeds.
\<close>

type_synonym save_round = "(str \<times> bool) option"

text \<open>
  \<open>start\<close> is what the start gives: the exception of the first call that raises, or
  the names of the sheets of the workbook \<open>Workbooks.Add()\<close> returns.
\<close>

record com_env =
  start :: "error + str list"
  enumerated :: bool               \<comment> \<open>collecting \<open>initial_sheets\<close> did not raise\<close>
  files :: "src_file list"
  cancel_after :: bool             \<comment> \<open>the cancel flag at the check after the file loop\<close>
  delete_ok :: "nat \<Rightarrow> bool"        \<comment> \<open>\<open>Delete()\<close> of this sheet succeeds\<close>
  suggested :: str                 \<comment> \<open>\<open>safe_default_filename(folder)\<close>\<close>
  rounds :: "save_round list"
  close_ok :: bool                 \<comment> \<open>\<open>dest_wb.Close(SaveChanges=False)\<close> returns\<close>
  quit_ok :: bool                  \<comment> \<open>\<open>excel.Quit()\<close> returns\<close>

text \<open>The sheets of the new workbook; there are none when the start raised.\<close>

definition initial_names :: "com_env \<Rightarrow> str list" where
  "initial_names env = (case start env of Inl e \<Rightarrow> [] | Inr names \<Rightarrow> names)"

text \<open>
  The state of the worker: the destination workbook, the identity of the next copy,
  \<open>copied_any\<close>, the trace so far, and the successive contents of the destination.
\<close>

record mstate =
  dest :: workbook
  fresh :: nat
  copied_any :: bool
  trace :: "action list"
  history :: "workbook list"

definition emit :: "action list \<Rightarrow> mstate \<Rightarrow> mstate" where
  "emit as st = st\<lparr>trace := trace st @ as\<rparr>"

definition set_dest :: "workbook \<Rightarrow> mstate \<Rightarrow> mstate" where
  "set_dest wb st = st\<lparr>dest := wb, history := history st @ [wb]\<rparr>"

text \<open>\<open>copied.Name = nm\<close> succeeded, then \<open>copied_any = True\<close> and the log line.\<close>

definition renamed :: "nat \<Rightarrow> str \<Rightarrow> str \<Rightarrow> mstate \<Rightarrow> mstate" where
  "renamed i desired nm st =
     emit [Put (Log (Copied desired nm))]
       ((set_dest (map (\<lambda>sh. if fst sh = i then (i, nm) else sh) (dest st)) st)
          \<lparr>copied_any := True\<rparr>)"

text \<open>
  The loop over the worksheets of one source workbook. The result is the state and
  whether the loop ended without an exception; an exception leaves the loop for the
  handler of the file.
\<close>

fun copy_sheets :: "src_sheet list \<Rightarrow> mstate \<Rightarrow> mstate \<times> bool" where
  "copy_sheets [] st = (st, True)"
| "copy_sheets (ws # rest) st =
     (if cancel_at_sheet ws then (st, True)
      else
        let desired = ws_name ws;
            existing = set (map snd (dest st))
        in case copy_result ws of
             None \<Rightarrow> (st, False)
           | Some host_name \<Rightarrow>
               let i = fresh st;
                   st1 = (set_dest (dest st @ [(i, host_name)]) st)\<lparr>fresh := Suc i\<rparr>
               in case make_unique_sheet_name existing desired of
                    Inl e \<Rightarrow> (st1, False)
                  | Inr unique \<Rightarrow>
                      if rename_ok ws then copy_sheets rest (renamed i desired unique st1)
                      else
                        case make_unique_sheet_name existing (desired @ lit ''_copy'') of
                          Inl e \<Rightarrow> (st1, False)
                        | Inr fallback \<Rightarrow>
                            if retry_ok ws then copy_sheets rest (renamed i desired fallback st1)
                            else (st1, False))"

text \<open>The loop \<open>for idx, src_path in enumerate(self.files, start=1)\<close>, from \<open>idx\<close> on.\<close>

fun merge_files :: "nat \<Rightarrow> nat \<Rightarrow> src_file list \<Rightarrow> mstate \<Rightarrow> mstate" where
  "merge_files idx total_files [] st = st"
| "merge_files idx total_files (f # rest) st =
     (if cancel_at_file f then emit [Put (Log Cancelling)] st
      else
        let nm = name (src_path f);
            st1 = emit [Put (Progress (int idx) (int total_files) nm), Put (Log (Opening nm))] st;
            st2 = (case worksheets f of
                     None \<Rightarrow> emit [Put (Log (Warn nm))] st1
                   | Some wss \<Rightarrow>
                       (case copy_sheets wss st1 of
                          (s, True) \<Rightarrow> s
                        | (s, False) \<Rightarrow> emit [Put (Log (Warn nm))] s))
        in merge_files (Suc idx) total_files rest st2)"

text \<open>A successful \<open>Delete()\<close> takes the sheet of this identity out of the workbook.\<close>

fun remove_sheet :: "nat \<Rightarrow> workbook \<Rightarrow> workbook" where
  "remove_sheet i [] = []"
| "remove_sheet i (s # ss) = (if fst s = i then ss else s # remove_sheet i ss)"

text \<open>The loop \<open>for sh in initial_sheets\<close>, which deletes the placeholder sheets.\<close>

fun delete_sheets :: "(nat \<Rightarrow> bool) \<Rightarrow> nat list \<Rightarrow> mstate \<Rightarrow> mstate" where
  "delete_sheets ok [] st = st"
| "delete_sheets ok (sh # rest) st =
     (if length (dest st) \<le> 1 then st
      else if ok sh then
        delete_sheets ok rest
          (emit [Delete_sheet sh (length (dest st))]
             (set_dest (remove_sheet sh (dest st)) st))
      else delete_sheets ok rest st)"

definition remove_initial_sheets :: "(nat \<Rightarrow> bool) \<Rightarrow> nat list \<Rightarrow> mstate \<Rightarrow> mstate" where
  "remove_initial_sheets ok initial_sheets st =
     (if copied_any st \<and> initial_sheets \<noteq> [] then delete_sheets ok initial_sheets st else st)"

text \<open>
  \<open>dest_wb.Close(SaveChanges=False)\<close>, \<open>excel.Quit()\<close> and then the status put on the
  queue, as the program does on each of its three ways out. Neither call is guarded:
  when one raises, the status is not put and the exception leaves \<open>_run_impl\<close>.
\<close>

definition close_and_quit :: "bool \<Rightarrow> bool \<Rightarrow> status \<Rightarrow> action list \<times> outcome" where
  "close_and_quit closes quits s =
     (if \<not> closes then ([], Raised Com_error)
      else if \<not> quits then ([Close_unsaved], Raised Com_error)
      else ([Close_unsaved, Quit, Put (Done s)], Returned))"

text \<open>
  The save handshake, \<open>while True\<close>: one request per answer. It ends on an abort or on a
  successful save, and waits for ever when no further answer comes.
\<close>

fun save_loop :: "pylib \<Rightarrow> str \<Rightarrow> bool \<Rightarrow> bool \<Rightarrow> save_round list \<Rightarrow> action list \<times> outcome" where
  "save_loop L sugg closes quits [] = ([Put (Request_save sugg)], Blocked)"
| "save_loop L sugg closes quits (None # later) =
     (let (tr, out) = close_and_quit closes quits NoSave
      in ([Put (Request_save sugg), Put (Log Save_declined)] @ tr, out))"
| "save_loop L sugg closes quits (Some (save_path, ok) # later) =
     (let fmt = fileformat_for_path L save_path
      in if ok then
           (let (tr, out) = close_and_quit closes quits Saved
            in ([Put (Request_save sugg), SaveAs save_path fmt True,
                 Put (Log (Saved_to save_path))] @ tr, out))
         else
           (let (tr, out) = save_loop L sugg closes quits later
            in ([Put (Request_save sugg), SaveAs save_path fmt False, Put (Log Save_failed)] @ tr,
                out)))"

definition initial_state :: "com_env \<Rightarrow> mstate" where
  "initial_state env =
     (let wb = zip [0..<length (initial_names env)] (initial_names env)
      in \<lparr>dest = wb, fresh = length wb, copied_any = False,
          trace = [Put (Log (File_count (length (files env))))], history = [wb]\<rparr>)"

text \<open>
  \<open>_run_impl\<close> with the automation modules at hand: the final state and how the call
  ends. When the start raises there is no workbook and nothing has been put on the queue.
\<close>

definition run_impl :: "pylib \<Rightarrow> com_env \<Rightarrow> mstate \<times> outcome" where
  "run_impl L env =
     (case start env of
        Inl e \<Rightarrow>
          (\<lparr>dest = [], fresh = 0, copied_any = False, trace = [], history = []\<rparr>, Raised e)
      | Inr names \<Rightarrow>
          (let st0 = initial_state env;
               initial_sheets = (if enumerated env then map fst (dest st0) else []);
               st1 = merge_files 1 (length (files env)) (files env) st0
           in if cancel_after env then
                (let (tr, out) = close_and_quit (close_ok env) (quit_ok env) Cancelled
                 in (emit tr st1, out))
              else
                let st2 = emit [Put (Log Merged)]
                            (remove_initial_sheets (delete_ok env) initial_sheets st1);
                    (tr, out) = save_loop L (suggested env) (close_ok env) (quit_ok env) (rounds env)
                in (emit tr st2, out)))"

section \<open>The fallback strategy\<close>

text \<open>\<open>split_max sep k s\<close> is \<open>s.split(sep, k)\<close> for a one-character separator.\<close>

fun split_max :: "codepoint \<Rightarrow> nat \<Rightarrow> str \<Rightarrow> str list" where
  "split_max sep 0 s = [s]"
| "split_max sep (Suc k) s =
     (if sep \<in> set s
      then takeWhile (\<lambda>c. c \<noteq> sep) s # split_max sep k (tl (dropWhile (\<lambda>c. c \<noteq> sep) s))
      else [s])"

text \<open>The branch of the read loop for a line that starts with \<open>PROGRESS|\<close>.\<close>

definition progress_line :: "pylib \<Rightarrow> str \<Rightarrow> action list" where
  "progress_line L line =
     (let parts = split_max 124 3 line
      in if length parts = 4 then
           (case py_int L (parts ! 1) of
              None \<Rightarrow> []
            | Some current \<Rightarrow>
                (case py_int L (parts ! 2) of
                   None \<Rightarrow> []
                 | Some tot \<Rightarrow> [Put (Progress current tot (parts ! 3))]))
         else [])"

text \<open>
  The environment of a run of the fallback strategy: whether the script file exists,
  whether the temporary directory and the file list can be written, whether \<open>Popen\<close>
  starts the process, the lines the process prints until its output ends, the answers
  on \<open>save_queue\<close>, each with whether the write of it to the process returns, the exit
  code, and the cancel flag when the process has ended.
\<close>

record ps_env =
  script_exists :: bool
  list_written :: bool
  process_started :: bool
  ps_files :: "path list"
  default_name :: str              \<comment> \<open>\<open>safe_default_filename(folder)\<close>\<close>
  output_lines :: "str list"
  answers :: "(str option \<times> bool) list"
  exit_code :: int
  cancel_at_exit :: bool

text \<open>
  The read loop over the lines of the process. The result is the trace and how the loop
  ends: \<open>Returned\<close> when it comes to the end of the output, \<open>Blocked\<close> when a save request
  finds no answer, and \<open>Raised\<close> when the write of an answer to the process raises,
  which nothing in \<open>_run_impl_powershell\<close> guards.
\<close>

fun read_loop ::
  "pylib \<Rightarrow> str \<Rightarrow> str list \<Rightarrow> (str option \<times> bool) list \<Rightarrow> action list \<times> outcome" where
  "read_loop L dflt [] ans = ([], Returned)"
| "read_loop L dflt (raw # rest) ans =
     (let line = strip raw
      in if line = [] then read_loop L dflt rest ans
         else if startswith line (lit ''LOG|'') then
           (let (tr, fin) = read_loop L dflt rest ans in (Put (Log (Line (drop 4 line))) # tr, fin))
         else if startswith line (lit ''PROGRESS|'') then
           (let (tr, fin) = read_loop L dflt rest ans in (progress_line L line @ tr, fin))
         else if startswith line (lit ''REQUEST_SAVE|'') then
           (let sugg = (if 124 \<in> set line then split_max 124 1 line ! 1 else dflt)
            in case ans of
                 [] \<Rightarrow> ([Put (Request_save sugg)], Blocked)
               | (save_path, written) # later \<Rightarrow>
                   if written then
                     (let (tr, fin) = read_loop L dflt rest later
                      in (Put (Request_save sugg)
                            # Stdin_write ((case save_path of None \<Rightarrow> [] | Some p \<Rightarrow> p) @ [10])
                            # tr, fin))
                   else ([Put (Request_save sugg)], Raised Broken_pipe))
         else
           (let (tr, fin) = read_loop L dflt rest ans in (Put (Log (Line line)) # tr, fin)))"

text \<open>What follows \<open>rc = proc.wait()\<close>.\<close>

definition exit_status :: "bool \<Rightarrow> int \<Rightarrow> action list \<times> outcome" where
  "exit_status cancel_set rc =
     (if cancel_set then ([Put (Done Cancelled)], Returned)
      else if rc = 0 then ([Put (Done Saved)], Returned)
      else if rc = 3 then ([Put (Done NoSave)], Returned)
      else if rc = 2 then ([Put (Done Cancelled)], Returned)
      else ([], Raised (ProcessFailed rc)))"

definition run_impl_powershell :: "pylib \<Rightarrow> ps_env \<Rightarrow> action list \<times> outcome" where
  "run_impl_powershell L env =
     (if \<not> script_exists env then ([], Raised ScriptNotFound)
      else if \<not> list_written env then ([], Raised Os_error)
      else if \<not> process_started env then
        ([Put (Log (Script_file_count (length (ps_files env))))], Raised Os_error)
      else
        let (tr, fin) = read_loop L (default_name env) (output_lines env) (answers env);
            tr1 = Put (Log (Script_file_count (length (ps_files env)))) # tr
        in case fin of
             Returned \<Rightarrow>
               (let (tr2, out) = exit_status (cancel_at_exit env) (exit_code env)
                in (tr1 @ tr2, out))
           | _ \<Rightarrow> (tr1, fin))"

section \<open>The worker\<close>

text \<open>
  Which strategy runs is decided by whether the automation modules can be imported;
  the environment of a run is that of the strategy it takes.
\<close>

datatype run_env = Com com_env | PowerShell ps_env

text \<open>\<open>run\<close>: the trace of the whole run, with the handler for an exception.\<close>

definition run :: "pylib \<Rightarrow> run_env \<Rightarrow> action list" where
  "run L env =
     (let (tr, out) = (case env of
                         Com e \<Rightarrow> (let (st, out) = run_impl L e in (trace st, out))
                       | PowerShell e \<Rightarrow> run_impl_powershell L e)
      in case out of
           Raised e \<Rightarrow> tr @ [Put (Log (Fatal e)), Put (Error_ev e), Put (Done Error)]
         | _ \<Rightarrow> tr)"


section \<open>Notions for stating and proving the properties\<close>

text \<open>What the handler of \<open>run\<close> puts on the queue for the way \<open>_run_impl\<close> ended.\<close>

definition handled :: "outcome \<Rightarrow> action list" where
  "handled out =
     (case out of
        Raised e \<Rightarrow> [Put (Log (Fatal e)), Put (Error_ev e), Put (Done Error)]
      | _ \<Rightarrow> [])"

text \<open>The name the copy of a worksheet gets, if one of the two assignments succeeds.\<close>

definition chosen_name :: "src_sheet \<Rightarrow> str set \<Rightarrow> str option" where
  "chosen_name ws existing =
     (case make_unique_sheet_name existing (ws_name ws) of
        Inl e \<Rightarrow> None
      | Inr unique \<Rightarrow>
          if rename_ok ws then Some unique
          else (case make_unique_sheet_name existing (ws_name ws @ lit ''_copy'') of
                  Inl e \<Rightarrow> None
                | Inr fallback \<Rightarrow> if retry_ok ws then Some fallback else None))"

definition copied_state :: "str \<Rightarrow> mstate \<Rightarrow> mstate" where
  "copied_state host_name st = (set_dest (dest st @ [(fresh st, host_name)]) st)\<lparr>fresh := Suc (fresh st)\<rparr>"


text \<open>What the file loop puts on the queue: log lines and progress events.\<close>

definition is_report :: "action \<Rightarrow> bool" where
  "is_report a = (case a of Put (Log m) \<Rightarrow> True | Put (Progress c t f) \<Rightarrow> True | _ \<Rightarrow> False)"

text \<open>What happens before the save handshake: reports and deletions.\<close>

definition is_merge_action :: "action \<Rightarrow> bool" where
  "is_merge_action a = (case a of Delete_sheet i n \<Rightarrow> True | _ \<Rightarrow> is_report a)"

text \<open>\<open>extends Q st st'\<close>: the trace of \<open>st'\<close> is that of \<open>st\<close> and then actions of kind \<open>Q\<close>.\<close>

definition extends :: "(action \<Rightarrow> bool) \<Rightarrow> mstate \<Rightarrow> mstate \<Rightarrow> bool" where
  "extends Q st st' \<longleftrightarrow>
     take (length (trace st)) (trace st') = trace st \<and>
     list_all Q (drop (length (trace st)) (trace st'))"



text \<open>
  A run to evaluate the model on: a new workbook with one placeholder, and the files
  \<open>A.xlsx\<close> with sheets \<open>Jan\<close>, \<open>Feb\<close> and \<open>B.xlsx\<close> with sheets \<open>Jan\<close>, \<open>Mar\<close>; the save
  fails twice and succeeds the third time.
\<close>

definition example_sheet :: "str \<Rightarrow> str \<Rightarrow> src_sheet" where
  "example_sheet nm host_name =
     \<lparr>ws_name = nm, cancel_at_sheet = False, copy_result = Some host_name,
      rename_ok = True, retry_ok = True\<rparr>"

definition example_env :: com_env where
  "example_env =
     \<lparr>start = Inr [lit ''Sheet1''], enumerated = True,
      files =
        [\<lparr>src_path = \<lparr>is_dir = False, name = lit ''A.xlsx''\<rparr>, cancel_at_file = False,
          worksheets = Some [example_sheet (lit ''Jan'') (lit ''Jan (2)''),
                             example_sheet (lit ''Feb'') (lit ''Feb (2)'')]\<rparr>,
         \<lparr>src_path = \<lparr>is_dir = False, name = lit ''B.xlsx''\<rparr>, cancel_at_file = False,
          worksheets = Some [example_sheet (lit ''Jan'') (lit ''Jan (2)''),
                             example_sheet (lit ''Mar'') (lit ''Mar (2)'')]\<rparr>],
      cancel_after = False, delete_ok = (\<lambda>i. True), suggested = lit ''merged.xlsx'',
      rounds = [Some (lit ''o/a.xlsx'', False), Some (lit ''o/b.xlsx'', False),
                Some (lit ''o/c.xlsx'', True)],
      close_ok = True, quit_ok = True\<rparr>"

section \<open>Properties\<close>

subsection \<open>Facts about strings\<close>

lemma lit_underscore: "lit ''_'' = [95]"
  by (simp add: lit_def)

lemma lit_Sheet: "lit ''Sheet'' = [83, 104, 101, 101, 116]"
  by (simp add: lit_def)

lemma illegal_eq: "illegal = {58, 92, 47, 63, 42, 91, 93}"
  by (simp add: illegal_def lit_def)

lemma set_lstrip: "set (lstrip s) \<subseteq> set s"
  by (auto simp: lstrip_def dest: set_dropWhileD)

lemma set_rstrip: "set (rstrip s) \<subseteq> set s"
  by (auto simp: rstrip_def dest: set_dropWhileD)

lemma set_strip: "set (strip s) \<subseteq> set s"
  using set_lstrip set_rstrip by (fastforce simp: strip_def)

lemma lstrip_id: "s \<noteq> [] \<Longrightarrow> \<not> isspace (hd s) \<Longrightarrow> lstrip s = s"
  by (cases s) (simp_all add: lstrip_def)

lemma rstrip_id: "s \<noteq> [] \<Longrightarrow> \<not> isspace (last s) \<Longrightarrow> rstrip s = s"
  by (cases s rule: rev_cases) (simp_all add: rstrip_def)

lemma hd_lstrip: "lstrip s \<noteq> [] \<Longrightarrow> \<not> isspace (hd (lstrip s))"
  by (simp add: lstrip_def hd_dropWhile)

lemma last_rstrip: "rstrip s \<noteq> [] \<Longrightarrow> \<not> isspace (last (rstrip s))"
proof -
  assume ne: "rstrip s \<noteq> []"
  then have "dropWhile isspace (rev s) \<noteq> []"
    by (simp add: rstrip_def)
  then have "\<not> isspace (hd (dropWhile isspace (rev s)))"
    by (rule hd_dropWhile)
  moreover have "last (rstrip s) = hd (dropWhile isspace (rev s))"
    using ne by (simp add: rstrip_def last_rev)
  ultimately show ?thesis by simp
qed

lemma hd_rstrip: "rstrip s \<noteq> [] \<Longrightarrow> hd (rstrip s) = hd s"
proof (induction s rule: rev_induct)
  case Nil
  then show ?case by (simp add: rstrip_def)
next
  case (snoc x xs)
  show ?case
  proof (cases "isspace x")
    case True
    then have eq: "rstrip (xs @ [x]) = rstrip xs"
      by (simp add: rstrip_def)
    with snoc have "hd (rstrip xs) = hd xs" and "rstrip xs \<noteq> []"
      by simp_all
    moreover from this have "xs \<noteq> []"
      by (auto simp: rstrip_def)
    ultimately show ?thesis
      using eq by simp
  next
    case False
    then show ?thesis
      by (simp add: rstrip_def)
  qed
qed

lemma strip_props:
  assumes "strip s \<noteq> []"
  shows "\<not> isspace (hd (strip s))" and "\<not> isspace (last (strip s))"
proof -
  from assms have r: "rstrip (lstrip s) \<noteq> []"
    by (simp add: strip_def)
  then have l: "lstrip s \<noteq> []"
    by (auto simp: rstrip_def)
  have "hd (strip s) = hd (lstrip s)"
    using r by (simp add: strip_def hd_rstrip)
  then show "\<not> isspace (hd (strip s))"
    using hd_lstrip [OF l] by simp
  show "\<not> isspace (last (strip s))"
    using last_rstrip [OF r] by (simp add: strip_def)
qed

lemma strip_id: "s \<noteq> [] \<Longrightarrow> \<not> isspace (hd s) \<Longrightarrow> \<not> isspace (last s) \<Longrightarrow> strip s = s"
  by (simp add: strip_def lstrip_id rstrip_id)

lemma concat_replace_id:
  "set s \<inter> illegal = {} \<Longrightarrow> concat (map (\<lambda>ch. if ch \<in> illegal then lit ''_'' else [ch]) s) = s"
  by (induction s) auto

lemma set_concat_replace:
  "set (concat (map (\<lambda>ch. if ch \<in> illegal then lit ''_'' else [ch]) s)) \<inter> illegal = {}"
  by (induction s) (auto simp: illegal_eq lit_underscore)

lemma sanitize_no_illegal: "set (sanitize_sheet_name s) \<inter> illegal = {}"
proof -
  let ?r = "concat (map (\<lambda>ch. if ch \<in> illegal then lit ''_'' else [ch]) s)"
  have "set (strip ?r) \<inter> illegal = {}"
    using set_strip [of ?r] set_concat_replace [of s] by blast
  moreover have "set (lit ''Sheet'') \<inter> illegal = {}"
    by (simp add: lit_Sheet illegal_eq)
  ultimately show ?thesis
    by (simp add: sanitize_sheet_name_def Let_def)
qed

lemma sanitize_nonempty: "sanitize_sheet_name s \<noteq> []"
  by (simp add: sanitize_sheet_name_def Let_def lit_Sheet)

lemma sanitize_trimmed:
  "\<not> isspace (hd (sanitize_sheet_name s)) \<and> \<not> isspace (last (sanitize_sheet_name s))"
proof (cases "strip (concat (map (\<lambda>ch. if ch \<in> illegal then lit ''_'' else [ch]) s)) = []")
  case True
  then show ?thesis
    by (simp add: sanitize_sheet_name_def Let_def lit_Sheet isspace_def)
next
  case False
  then show ?thesis
    using strip_props [OF False] by (simp add: sanitize_sheet_name_def Let_def)
qed

lemma sanitize_fixed:
  assumes "s \<noteq> []" "set s \<inter> illegal = {}" "\<not> isspace (hd s)" "\<not> isspace (last s)"
  shows "sanitize_sheet_name s = s"
  using assms by (simp add: sanitize_sheet_name_def Let_def concat_replace_id strip_id)

subsection \<open>Facts about the probing loop\<close>

lemma length_decimal: "n < 10000 \<Longrightarrow> 1 \<le> length (decimal n) \<and> length (decimal n) \<le> 4"
proof -
  assume n: "n < 10000"
  have d1: "length (decimal k) = 1" if "k < 10" for k
    using that by (subst decimal.simps) simp
  have d2: "length (decimal k) \<le> 2 \<and> 1 \<le> length (decimal k)" if "k < 100" for k
    using that d1 [of "k div 10"] d1 [of k] by (subst (1 2) decimal.simps) auto
  have d3: "length (decimal k) \<le> 3 \<and> 1 \<le> length (decimal k)" if "k < 1000" for k
    using that d2 [of "k div 10"] d1 [of k] by (subst (1 2) decimal.simps) auto
  have "length (decimal n) \<le> 4 \<and> 1 \<le> length (decimal n)"
    using n d3 [of "n div 10"] d1 [of n] by (subst (1 2) decimal.simps) auto
  then show ?thesis by simp
qed

lemma candidate_suffixed:
  assumes "n < 10000"
  shows "truncate_sheet_name base (31 - int (length (lit ''_'' @ decimal n))) @ lit ''_'' @ decimal n
         = suffixed base n"
proof -
  have "length (lit ''_'' @ decimal n) \<le> 5"
    using length_decimal [OF assms] by (simp add: lit_underscore)
  then have "nat (31 - int (length (lit ''_'' @ decimal n))) = 31 - length (lit ''_'' @ decimal n)"
    and "0 \<le> 31 - int (length (lit ''_'' @ decimal n))"
    by linarith+
  then show ?thesis
    by (simp add: truncate_sheet_name_def suffixed_def)
qed

lemma length_suffixed: "n < 10000 \<Longrightarrow> length (suffixed base n) \<le> 31"
  using length_decimal [of n] by (auto simp: suffixed_def lit_underscore)

lemma probe_step:
  "n < 10000 \<Longrightarrow> probe E b n = (if suffixed b n \<notin> E then Inr (suffixed b n) else probe E b (Suc n))"
  by (subst probe.simps) (simp only: Let_def candidate_suffixed if_True)

lemma probe_stop: "\<not> n < 10000 \<Longrightarrow> probe E b n = Inl NameSpaceExhausted"
  by (subst probe.simps) simp

lemma probe_Inr:
  "probe E b n = Inr r \<Longrightarrow>
     \<exists>k. n \<le> k \<and> k < 10000 \<and> r = suffixed b k \<and> r \<notin> E \<and> (\<forall>m. n \<le> m \<and> m < k \<longrightarrow> suffixed b m \<in> E)"
proof (induction "10000 - n" arbitrary: n)
  case 0
  then show ?case by (simp add: probe_stop)
next
  case (Suc d)
  then have lt: "n < 10000" by simp
  show ?case
  proof (cases "suffixed b n \<in> E")
    case False
    with lt Suc.prems have "r = suffixed b n"
      by (simp add: probe_step)
    with lt False show ?thesis
      by (intro exI [of _ n]) auto
  next
    case True
    with lt Suc.prems have rec: "probe E b (Suc n) = Inr r"
      by (simp add: probe_step)
    have "d = 10000 - Suc n" using Suc.hyps(2) by simp
    from Suc.hyps(1) [OF this rec]
    obtain k where k: "Suc n \<le> k" "k < 10000" "r = suffixed b k" "r \<notin> E"
      "\<forall>m. Suc n \<le> m \<and> m < k \<longrightarrow> suffixed b m \<in> E"
      by blast
    have "suffixed b m \<in> E" if "n \<le> m \<and> m < k" for m
    proof (cases "m = n")
      case True
      with \<open>suffixed b n \<in> E\<close> show ?thesis by simp
    next
      case False
      with that have "Suc n \<le> m \<and> m < k" by simp
      with k(5) show ?thesis by blast
    qed
    with k show ?thesis
      by (intro exI [of _ k]) auto
  qed
qed

lemma probe_Inl_iff:
  "probe E b n = Inl e \<longleftrightarrow>
     e = NameSpaceExhausted \<and> (\<forall>m. n \<le> m \<and> m < 10000 \<longrightarrow> suffixed b m \<in> E)"
proof (induction "10000 - n" arbitrary: n)
  case 0
  then show ?case by (auto simp: probe_stop)
next
  case (Suc d)
  then have lt: "n < 10000" by simp
  have "d = 10000 - Suc n" using Suc.hyps(2) by simp
  note IH = Suc.hyps(1) [OF this]
  show ?case
  proof (cases "suffixed b n \<in> E")
    case False
    with lt show ?thesis
      by (auto simp: probe_step)
  next
    case True
    have "(\<forall>m. n \<le> m \<and> m < 10000 \<longrightarrow> suffixed b m \<in> E)
          \<longleftrightarrow> (\<forall>m. Suc n \<le> m \<and> m < 10000 \<longrightarrow> suffixed b m \<in> E)"
      using True by (metis Suc_leI le_neq_implies_less Suc_leD)
    with lt True IH show ?thesis
      by (simp add: probe_step)
  qed
qed



lemma make_unique_unfold:
  "make_unique_sheet_name E d =
     (if take 31 (sanitize_sheet_name d) \<notin> E then Inr (take 31 (sanitize_sheet_name d))
      else probe E (take 31 (sanitize_sheet_name d)) 2)"
  by (simp add: make_unique_sheet_name_def truncate_sheet_name_def Let_def)

lemma make_unique_exhausted:
  "take 31 (sanitize_sheet_name d) \<in> E \<Longrightarrow>
   (\<forall>n. 2 \<le> n \<and> n < 10000 \<longrightarrow> suffixed (take 31 (sanitize_sheet_name d)) n \<in> E) \<Longrightarrow>
   make_unique_sheet_name E d = Inl NameSpaceExhausted"
  by (simp add: make_unique_unfold probe_Inl_iff)

lemma make_unique_exhaustion_reachable:
  "finite (insert (take 31 (sanitize_sheet_name d)) (suffixed (take 31 (sanitize_sheet_name d)) ` {2..<10000})) \<and>
   make_unique_sheet_name
     (insert (take 31 (sanitize_sheet_name d)) (suffixed (take 31 (sanitize_sheet_name d)) ` {2..<10000})) d
   = Inl NameSpaceExhausted"
  by (simp add: make_unique_exhausted)

text \<open>
  C2. \<open>sanitize_sheet_name\<close> is a total function (it has no failing branch). For every
  string its result contains none of \<open>: \ / ? * [ ]\<close> and has at least one character;
  it is the name with every illegal character replaced by \<open>_\<close> and the surrounding
  whitespace trimmed, or the default label \<open>Sheet\<close> when that is empty.
\<close>

theorem sanitize_sheet_name_legal:
  "set (sanitize_sheet_name s) \<inter> illegal = {} \<and> 1 \<le> length (sanitize_sheet_name s) \<and>
   sanitize_sheet_name s =
     (let cleaned = strip (map (\<lambda>ch. if ch \<in> illegal then 95 else ch) s)
      in if cleaned = [] then lit ''Sheet'' else cleaned)"
proof -
  have "concat (map (\<lambda>ch. if ch \<in> illegal then lit ''_'' else [ch]) s)
        = map (\<lambda>ch. if ch \<in> illegal then 95 else ch) s"
    by (induction s) (simp_all add: lit_underscore)
  then have "sanitize_sheet_name s =
     (let cleaned = strip (map (\<lambda>ch. if ch \<in> illegal then 95 else ch) s)
      in if cleaned = [] then lit ''Sheet'' else cleaned)"
    by (simp add: sanitize_sheet_name_def)
  moreover have "1 \<le> length (sanitize_sheet_name s)"
    using sanitize_nonempty [of s] by (cases "sanitize_sheet_name s") simp_all
  ultimately show ?thesis
    using sanitize_no_illegal [of s] by simp
qed

theorem sanitize_sheet_name_legal_witness:
  "sanitize_sheet_name (lit '' a/b:c '') = lit ''a_b_c'' \<and> sanitize_sheet_name (lit ''   '') = lit ''Sheet''
   \<and> set (lit ''a_b_c'') \<inter> illegal = {}"
  using sanitize_sheet_name_legal [of "lit '' a/b:c ''"]
  by (simp add: sanitize_sheet_name_def lit_def illegal_def strip_def lstrip_def rstrip_def isspace_def)

text \<open>
  C10. \<open>sanitize_sheet_name\<close> is idempotent. A sanitized name has no illegal character,
  is not empty and has no whitespace at either end, so that trimming leaves it as it
  is; the default label \<open>Sheet\<close> is a fixed point.
\<close>

theorem sanitize_sheet_name_idem:
  "sanitize_sheet_name (sanitize_sheet_name s) = sanitize_sheet_name s \<and>
   set (sanitize_sheet_name s) \<inter> illegal = {} \<and>
   sanitize_sheet_name s \<noteq> [] \<and>
   \<not> isspace (hd (sanitize_sheet_name s)) \<and> \<not> isspace (last (sanitize_sheet_name s)) \<and>
   strip (sanitize_sheet_name s) = sanitize_sheet_name s \<and>
   sanitize_sheet_name (lit ''Sheet'') = lit ''Sheet''"
proof -
  have fixed: "sanitize_sheet_name (sanitize_sheet_name t) = sanitize_sheet_name t" for t
    using sanitize_nonempty [of t] sanitize_no_illegal [of t] sanitize_trimmed [of t]
    by (intro sanitize_fixed) simp_all
  have "sanitize_sheet_name (lit ''Sheet'') = lit ''Sheet''"
    by (rule sanitize_fixed) (simp_all add: lit_Sheet illegal_eq isspace_def)
  moreover have "strip (sanitize_sheet_name s) = sanitize_sheet_name s"
    using sanitize_nonempty [of s] sanitize_trimmed [of s] by (intro strip_id) simp_all
  ultimately show ?thesis
    using fixed [of s] sanitize_nonempty [of s] sanitize_no_illegal [of s] sanitize_trimmed [of s]
    by simp
qed

text \<open>
  C1. For every set \<open>E\<close> of names and every desired name \<open>d\<close>, \<open>make_unique_sheet_name\<close>
  either returns a name that is not in \<open>E\<close> and has at most 31 characters, or raises the
  error of an exhausted name space. The name returned is the sanitized and truncated
  base when that is free, and otherwise the first free candidate among the base cut to
  fit with suffix \<open>_2\<close>, \<open>_3\<close>, ... up to \<open>_9999\<close>. The error is raised exactly when the
  base and all these candidates are taken. The result is a function of \<open>E\<close> and \<open>d\<close>.
\<close>

theorem make_unique_sheet_name_spec:
  "case make_unique_sheet_name E d of
     Inr r \<Rightarrow>
       r \<notin> E \<and> length r \<le> 31 \<and>
       (if take 31 (sanitize_sheet_name d) \<notin> E then r = take 31 (sanitize_sheet_name d)
        else \<exists>n. 2 \<le> n \<and> n < 10000 \<and> r = suffixed (take 31 (sanitize_sheet_name d)) n \<and>
                 (\<forall>m. 2 \<le> m \<and> m < n \<longrightarrow> suffixed (take 31 (sanitize_sheet_name d)) m \<in> E))
   | Inl e \<Rightarrow>
       e = NameSpaceExhausted \<and> take 31 (sanitize_sheet_name d) \<in> E \<and>
       (\<forall>n. 2 \<le> n \<and> n < 10000 \<longrightarrow> suffixed (take 31 (sanitize_sheet_name d)) n \<in> E)"
proof (cases "make_unique_sheet_name E d")
  case (Inl e)
  let ?b = "take 31 (sanitize_sheet_name d)"
  from Inl have "?b \<in> E" and "probe E ?b 2 = Inl e"
    by (auto simp: make_unique_unfold split: if_splits)
  then show ?thesis
    using Inl by (simp add: probe_Inl_iff)
next
  case (Inr r)
  let ?b = "take 31 (sanitize_sheet_name d)"
  show ?thesis
  proof (cases "?b \<in> E")
    case False
    with Inr have "r = ?b"
      by (simp add: make_unique_unfold)
    with False Inr show ?thesis by simp
  next
    case True
    with Inr have "probe E ?b 2 = Inr r"
      by (simp add: make_unique_unfold)
    from probe_Inr [OF this]
    obtain k where k: "2 \<le> k" "k < 10000" "r = suffixed ?b k" "r \<notin> E"
      "\<forall>m. 2 \<le> m \<and> m < k \<longrightarrow> suffixed ?b m \<in> E"
      by blast
    then have "length r \<le> 31"
      by (simp add: length_suffixed)
    with k True Inr show ?thesis
      by auto
  qed
qed


theorem make_unique_sheet_name_spec_witness:
  "make_unique_sheet_name {lit ''Jan'', lit ''Jan_2''} (lit ''Jan'') = Inr (lit ''Jan_3'') \<and>
   lit ''Jan_3'' \<notin> {lit ''Jan'', lit ''Jan_2''} \<and> length (lit ''Jan_3'') \<le> 31 \<and>
   (\<exists>n. 2 \<le> n \<and> n < 10000 \<and> lit ''Jan_3'' = suffixed (take 31 (sanitize_sheet_name (lit ''Jan''))) n \<and>
        (\<forall>m. 2 \<le> m \<and> m < n \<longrightarrow>
             suffixed (take 31 (sanitize_sheet_name (lit ''Jan''))) m \<in> {lit ''Jan'', lit ''Jan_2''}))"
proof -
  have san: "sanitize_sheet_name (lit ''Jan'') = lit ''Jan''"
    by (simp add: sanitize_sheet_name_def lit_def illegal_def strip_def lstrip_def rstrip_def
        isspace_def)
  have c2: "suffixed (lit ''Jan'') 2 = lit ''Jan_2''" and c3: "suffixed (lit ''Jan'') 3 = lit ''Jan_3''"
    by (simp_all add: suffixed_def lit_def decimal.simps)
  have t: "take 31 (lit ''Jan'') = lit ''Jan''"
    by (simp add: lit_def)
  have "probe {lit ''Jan'', lit ''Jan_2''} (lit ''Jan'') 3 = Inr (lit ''Jan_3'')"
    by (subst probe_step) (simp_all add: c3, simp add: lit_def)
  moreover have "Suc 2 = 3"
    by simp
  ultimately have "probe {lit ''Jan'', lit ''Jan_2''} (lit ''Jan'') 2 = Inr (lit ''Jan_3'')"
    by (subst probe_step) (simp_all add: c2)
  then have run: "make_unique_sheet_name {lit ''Jan'', lit ''Jan_2''} (lit ''Jan'') = Inr (lit ''Jan_3'')"
    by (simp add: make_unique_unfold san t)
  show ?thesis
    using make_unique_sheet_name_spec [where E = "{lit ''Jan'', lit ''Jan_2''}" and d = "lit ''Jan''"]
    unfolding run by (simp add: san t)
qed

subsection \<open>Facts about suffixes and literals\<close>

lemma rfind_ge: "- 1 \<le> rfind c s"
  by (induction s) (simp_all add: Let_def)

lemma rfind_absent: "c \<notin> set s \<Longrightarrow> rfind c s = - 1"
  by (induction s) (simp_all add: Let_def)

lemma rfind_last: "c \<notin> set e \<Longrightarrow> rfind c (xs @ c # e) = int (length xs)"
  by (induction xs) (simp_all add: Let_def rfind_absent)

lemma path_suffix_extension:
  assumes "stem \<noteq> []" "e \<noteq> []" "46 \<notin> set e"
  shows "path_suffix (stem @ lit ''.'' @ e) = lit ''.'' @ e"
proof -
  have dot: "lit ''.'' = [46]"
    by (simp add: lit_def)
  have "rfind 46 (stem @ 46 # e) = int (length stem)"
    using assms(3) by (rule rfind_last)
  moreover have "0 < length stem" and "0 < length e"
    using assms by simp_all
  ultimately show ?thesis
    by (simp add: path_suffix_def dot Let_def)
qed

lemma path_suffix_none: "46 \<notin> set nm \<Longrightarrow> path_suffix nm = []"
  by (simp add: path_suffix_def rfind_absent)

lemma ext_literals:
  "lit ''.xlsx'' \<noteq> lit ''.xlsm''" "lit ''.xlsx'' \<noteq> lit ''.xlsb''" "lit ''.xlsx'' \<noteq> lit ''.xls''"
  "lit ''.xlsm'' \<noteq> lit ''.xlsb''" "lit ''.xlsm'' \<noteq> lit ''.xls''" "lit ''.xlsb'' \<noteq> lit ''.xls''"
  by (simp_all add: lit_def)

text \<open>
  C9. The file-format code of a destination path is decided by the lower-cased suffix
  of its final component: \<open>.xlsx\<close> gives 51, \<open>.xlsm\<close> gives 52, \<open>.xlsb\<close> gives 50, \<open>.xls\<close>
  gives 56, and every other suffix, the empty one included, gives 51.
\<close>

theorem fileformat_for_path_table:
  "(str_lower L (path_suffix (Path_name L p)) = lit ''.xlsx'' \<longrightarrow> fileformat_for_path L p = 51) \<and>
   (str_lower L (path_suffix (Path_name L p)) = lit ''.xlsm'' \<longrightarrow> fileformat_for_path L p = 52) \<and>
   (str_lower L (path_suffix (Path_name L p)) = lit ''.xlsb'' \<longrightarrow> fileformat_for_path L p = 50) \<and>
   (str_lower L (path_suffix (Path_name L p)) = lit ''.xls'' \<longrightarrow> fileformat_for_path L p = 56) \<and>
   (str_lower L (path_suffix (Path_name L p)) \<notin> {lit ''.xlsx'', lit ''.xlsm'', lit ''.xlsb'', lit ''.xls''}
      \<longrightarrow> fileformat_for_path L p = 51)"
  using ext_literals by (simp add: fileformat_for_path_def Let_def)

theorem fileformat_for_path_table_witness:
  "fileformat_for_path ascii_lib (lit ''o/m.XLSX'') = 51 \<and>
   fileformat_for_path ascii_lib (lit ''o/m.xlsm'') = 52 \<and>
   fileformat_for_path ascii_lib (lit ''o/m.xlsb'') = 50 \<and>
   fileformat_for_path ascii_lib (lit ''o.d/m.xls'') = 56 \<and>
   fileformat_for_path ascii_lib (lit ''o.xls/m'') = 51"
proof -
  have nm: "Path_name ascii_lib (lit ''o/m.XLSX'') = lit ''m.XLSX''"
    "Path_name ascii_lib (lit ''o/m.xlsm'') = lit ''m.xlsm''"
    "Path_name ascii_lib (lit ''o/m.xlsb'') = lit ''m.xlsb''"
    "Path_name ascii_lib (lit ''o.d/m.xls'') = lit ''m.xls''"
    "Path_name ascii_lib (lit ''o.xls/m'') = lit ''m''"
    by (simp_all add: ascii_lib_def last_component_def lit_def)
  have sf: "path_suffix (lit ''m.XLSX'') = lit ''.XLSX''"
    "path_suffix (lit ''m.xlsm'') = lit ''.xlsm''"
    "path_suffix (lit ''m.xlsb'') = lit ''.xlsb''"
    "path_suffix (lit ''m.xls'') = lit ''.xls''"
    "path_suffix (lit ''m'') = []"
    by (simp_all add: path_suffix_def lit_def Let_def)
  have lw: "str_lower ascii_lib (lit ''.XLSX'') = lit ''.xlsx''"
    "str_lower ascii_lib (lit ''.xlsm'') = lit ''.xlsm''"
    "str_lower ascii_lib (lit ''.xlsb'') = lit ''.xlsb''"
    "str_lower ascii_lib (lit ''.xls'') = lit ''.xls''"
    "str_lower ascii_lib [] = []"
    by (simp_all add: ascii_lib_def ascii_lower_def lit_def)
  have other: "[] \<notin> {lit ''.xlsx'', lit ''.xlsm'', lit ''.xlsb'', lit ''.xls''}"
    by (simp add: lit_def)
  have "fileformat_for_path ascii_lib (lit ''o/m.XLSX'') = 51"
    using fileformat_for_path_table [of ascii_lib "lit ''o/m.XLSX''"] by (simp only: nm sf lw)
  moreover have "fileformat_for_path ascii_lib (lit ''o/m.xlsm'') = 52"
    using fileformat_for_path_table [of ascii_lib "lit ''o/m.xlsm''"] by (simp only: nm sf lw)
  moreover have "fileformat_for_path ascii_lib (lit ''o/m.xlsb'') = 50"
    using fileformat_for_path_table [of ascii_lib "lit ''o/m.xlsb''"] by (simp only: nm sf lw)
  moreover have "fileformat_for_path ascii_lib (lit ''o.d/m.xls'') = 56"
    using fileformat_for_path_table [of ascii_lib "lit ''o.d/m.xls''"] by (simp only: nm sf lw)
  moreover have "fileformat_for_path ascii_lib (lit ''o.xls/m'') = 51"
    using fileformat_for_path_table [of ascii_lib "lit ''o.xls/m''"] other by (simp add: nm sf lw)
  ultimately show ?thesis
    by (intro conjI)
qed


text \<open>
  C3. The folder scan keeps an entry exactly when it is not a directory, its name does
  not begin with the lock-file marker \<open>~$\<close>, and its lower-cased suffix is one of
  \<open>.xls\<close>, \<open>.xlsx\<close>, \<open>.xlsm\<close>, \<open>.xlsb\<close>; every kept entry occurs as often as it is listed.
  The result is sorted by the lower-cased name. It is a function of the listing, so the
  same listing gives the same list; more, any other enumeration of the same entries
  gives the same list when the kept names differ in more than case.
\<close>

theorem refresh_list_spec:
  "(p \<in> set (refresh_list L entries) \<longleftrightarrow>
      p \<in> set entries \<and> \<not> is_dir p \<and> take 2 (name p) \<noteq> lit ''~$'' \<and>
      str_lower L (path_suffix (name p)) \<in> {lit ''.xls'', lit ''.xlsx'', lit ''.xlsm'', lit ''.xlsb''}) \<and>
   mset (refresh_list L entries) = filter_mset (is_excel_file L) (mset entries) \<and>
   sorted (map (\<lambda>p. str_lower L (name p)) (refresh_list L entries)) \<and>
   (mset entries' = mset entries \<and>
    inj_on (\<lambda>p. str_lower L (name p)) {p \<in> set entries. is_excel_file L p}
      \<longrightarrow> refresh_list L entries' = refresh_list L entries)"
proof -
  have len: "length (lit ''~$'') = 2"
    by (simp add: lit_def)
  have keep: "is_excel_file L q \<longleftrightarrow>
      \<not> is_dir q \<and> take 2 (name q) \<noteq> lit ''~$'' \<and>
      str_lower L (path_suffix (name q)) \<in> {lit ''.xls'', lit ''.xlsx'', lit ''.xlsm'', lit ''.xlsb''}" for q
    by (simp add: is_excel_file_def startswith_def EXCEL_EXTS_def len)
  have "refresh_list L entries' = refresh_list L entries"
    if eq: "mset entries' = mset entries"
      and inj: "inj_on (\<lambda>p. str_lower L (name p)) {p \<in> set entries. is_excel_file L p}"
  proof -
    have "mset (filter (is_excel_file L) entries') = mset (filter (is_excel_file L) entries)"
      using eq by simp
    moreover have "set entries' = set entries"
      using eq by (rule mset_eq_setD)
    then have "inj_on (\<lambda>p. str_lower L (name p)) (set (filter (is_excel_file L) entries'))"
      using inj by simp
    ultimately show ?thesis
      unfolding refresh_list_def by (rule sort_key_eq_sort_key)
  qed
  moreover have "p \<in> set (refresh_list L entries) \<longleftrightarrow>
      p \<in> set entries \<and> \<not> is_dir p \<and> take 2 (name p) \<noteq> lit ''~$'' \<and>
      str_lower L (path_suffix (name p)) \<in> {lit ''.xls'', lit ''.xlsx'', lit ''.xlsm'', lit ''.xlsb''}"
    using keep [of p] by (simp add: refresh_list_def)
  moreover have "mset (refresh_list L entries) = filter_mset (is_excel_file L) (mset entries)"
    by (simp add: refresh_list_def)
  moreover have "sorted (map (\<lambda>p. str_lower L (name p)) (refresh_list L entries))"
    by (simp add: refresh_list_def)
  ultimately show ?thesis
    by blast
qed

theorem refresh_list_spec_witness:
  "refresh_list ascii_lib example_listing =
     [\<lparr>is_dir = False, name = lit ''a.xls''\<rparr>, \<lparr>is_dir = False, name = lit ''b.XLSX''\<rparr>] \<and>
   refresh_list ascii_lib (rev example_listing) = refresh_list ascii_lib example_listing \<and>
   sorted (map (\<lambda>p. str_lower ascii_lib (name p)) (refresh_list ascii_lib example_listing))"
proof -
  have sf: "path_suffix (lit ''b.XLSX'') = lit ''.XLSX''" "path_suffix (lit ''a.xls'') = lit ''.xls''"
    "path_suffix (lit ''n.txt'') = lit ''.txt''"
    by (simp_all add: path_suffix_def lit_def Let_def)
  have lw: "str_lower ascii_lib (lit ''.XLSX'') = lit ''.xlsx''"
    "str_lower ascii_lib (lit ''.xls'') = lit ''.xls''"
    "str_lower ascii_lib (lit ''.txt'') = lit ''.txt''"
    "str_lower ascii_lib (lit ''b.XLSX'') = lit ''b.xlsx''"
    "str_lower ascii_lib (lit ''a.xls'') = lit ''a.xls''"
    by (simp_all add: ascii_lib_def ascii_lower_def lit_def)
  have mem: "lit ''.xlsx'' \<in> EXCEL_EXTS" "lit ''.xls'' \<in> EXCEL_EXTS" "lit ''.txt'' \<notin> EXCEL_EXTS"
    by (simp_all add: EXCEL_EXTS_def lit_def)
  have lock: "startswith (lit ''~$a.xls'') (lit ''~$'')" "\<not> startswith (lit ''b.XLSX'') (lit ''~$'')"
    "\<not> startswith (lit ''a.xls'') (lit ''~$'')" "\<not> startswith (lit ''n.txt'') (lit ''~$'')"
    by (simp_all add: startswith_def lit_def)
  have kept: "filter (is_excel_file ascii_lib) example_listing =
      [\<lparr>is_dir = False, name = lit ''b.XLSX''\<rparr>, \<lparr>is_dir = False, name = lit ''a.xls''\<rparr>]"
    by (simp add: example_listing_def is_excel_file_def sf lw mem lock)
  have ord: "lit ''a.xls'' \<le> lit ''b.xlsx''" "\<not> lit ''b.xlsx'' \<le> lit ''a.xls''"
    by (simp_all add: lit_def)
  have res: "refresh_list ascii_lib example_listing =
      [\<lparr>is_dir = False, name = lit ''a.xls''\<rparr>, \<lparr>is_dir = False, name = lit ''b.XLSX''\<rparr>]"
    by (simp add: refresh_list_def kept lw ord)
  have "{p \<in> set example_listing. is_excel_file ascii_lib p} = set (filter (is_excel_file ascii_lib) example_listing)"
    by simp
  then have "inj_on (\<lambda>p. str_lower ascii_lib (name p)) {p \<in> set example_listing. is_excel_file ascii_lib p}"
    using ord by (simp only: kept) (auto simp: inj_on_def lw)
  moreover have "mset (rev example_listing) = mset example_listing"
    by simp
  ultimately have "refresh_list ascii_lib (rev example_listing) = refresh_list ascii_lib example_listing"
    using refresh_list_spec [of _ ascii_lib example_listing "rev example_listing"] by blast
  moreover have "sorted (map (\<lambda>p. str_lower ascii_lib (name p)) (refresh_list ascii_lib example_listing))"
    using refresh_list_spec [of _ ascii_lib example_listing "rev example_listing"] by blast
  ultimately show ?thesis
    using res by simp
qed


text \<open>
  Where two kept names differ only in case, the sort is stable and their order is the
  order of the listing.
\<close>

lemma refresh_list_ties:
  "refresh_list ascii_lib [\<lparr>is_dir = False, name = lit ''A.xls''\<rparr>, \<lparr>is_dir = False, name = lit ''a.xls''\<rparr>]
     = [\<lparr>is_dir = False, name = lit ''A.xls''\<rparr>, \<lparr>is_dir = False, name = lit ''a.xls''\<rparr>] \<and>
   refresh_list ascii_lib [\<lparr>is_dir = False, name = lit ''a.xls''\<rparr>, \<lparr>is_dir = False, name = lit ''A.xls''\<rparr>]
     = [\<lparr>is_dir = False, name = lit ''a.xls''\<rparr>, \<lparr>is_dir = False, name = lit ''A.xls''\<rparr>]"
proof -
  have sf: "path_suffix (lit ''A.xls'') = lit ''.xls''" "path_suffix (lit ''a.xls'') = lit ''.xls''"
    by (simp_all add: path_suffix_def lit_def Let_def)
  have lw: "str_lower ascii_lib (lit ''.xls'') = lit ''.xls''"
    "str_lower ascii_lib (lit ''A.xls'') = lit ''a.xls''"
    "str_lower ascii_lib (lit ''a.xls'') = lit ''a.xls''"
    by (simp_all add: ascii_lib_def ascii_lower_def lit_def)
  have mem: "lit ''.xls'' \<in> EXCEL_EXTS"
    by (simp add: EXCEL_EXTS_def)
  have lock: "\<not> startswith (lit ''A.xls'') (lit ''~$'')" "\<not> startswith (lit ''a.xls'') (lit ''~$'')"
    by (simp_all add: startswith_def lit_def)
  show ?thesis
    by (simp add: refresh_list_def is_excel_file_def sf lw mem lock)
qed

subsection \<open>Facts about traces\<close>

lemma done_statuses_simps:
  "done_statuses [] = []"
  "done_statuses (a @ b) = done_statuses a @ done_statuses b"
  "done_statuses (Put (Done s) # tr) = s # done_statuses tr"
  "done_statuses (Put (Log m) # tr) = done_statuses tr"
  "done_statuses (Put (Progress c t f) # tr) = done_statuses tr"
  "done_statuses (Put (Request_save x) # tr) = done_statuses tr"
  "done_statuses (Put (Error_ev e) # tr) = done_statuses tr"
  "done_statuses (Delete_sheet i n # tr) = done_statuses tr"
  "done_statuses (SaveAs p fmt ok # tr) = done_statuses tr"
  "done_statuses (Close_unsaved # tr) = done_statuses tr"
  "done_statuses (Quit # tr) = done_statuses tr"
  "done_statuses (Stdin_write w # tr) = done_statuses tr"
  by (simp_all add: done_statuses_def)

lemma save_requests_simps:
  "save_requests [] = []"
  "save_requests (a @ b) = save_requests a @ save_requests b"
  "save_requests (Put (Request_save x) # tr) = x # save_requests tr"
  "save_requests (Put (Done s) # tr) = save_requests tr"
  "save_requests (Put (Log m) # tr) = save_requests tr"
  "save_requests (Put (Progress c t f) # tr) = save_requests tr"
  "save_requests (Put (Error_ev e) # tr) = save_requests tr"
  "save_requests (Delete_sheet i n # tr) = save_requests tr"
  "save_requests (SaveAs p fmt ok # tr) = save_requests tr"
  "save_requests (Close_unsaved # tr) = save_requests tr"
  "save_requests (Quit # tr) = save_requests tr"
  "save_requests (Stdin_write w # tr) = save_requests tr"
  by (simp_all add: save_requests_def)

lemma progress_events_simps:
  "progress_events [] = []"
  "progress_events (a @ b) = progress_events a @ progress_events b"
  "progress_events (Put (Progress c t f) # tr) = (c, t, f) # progress_events tr"
  "progress_events (Put (Request_save x) # tr) = progress_events tr"
  "progress_events (Put (Done s) # tr) = progress_events tr"
  "progress_events (Put (Log m) # tr) = progress_events tr"
  "progress_events (Put (Error_ev e) # tr) = progress_events tr"
  "progress_events (Delete_sheet i n # tr) = progress_events tr"
  "progress_events (SaveAs p fmt ok # tr) = progress_events tr"
  "progress_events (Close_unsaved # tr) = progress_events tr"
  "progress_events (Quit # tr) = progress_events tr"
  "progress_events (Stdin_write w # tr) = progress_events tr"
  by (simp_all add: progress_events_def)

lemma saved_paths_simps:
  "saved_paths [] = []"
  "saved_paths (a @ b) = saved_paths a @ saved_paths b"
  "saved_paths (SaveAs p fmt ok # tr) = (if ok then p # saved_paths tr else saved_paths tr)"
  "saved_paths (Put ev # tr) = saved_paths tr"
  "saved_paths (Delete_sheet i n # tr) = saved_paths tr"
  "saved_paths (Close_unsaved # tr) = saved_paths tr"
  "saved_paths (Quit # tr) = saved_paths tr"
  "saved_paths (Stdin_write w # tr) = saved_paths tr"
  by (simp_all add: saved_paths_def)

subsection \<open>Facts about the fallback strategy\<close>

lemma done_progress_line: "done_statuses (progress_line L line) = []"
  by (simp add: progress_line_def Let_def done_statuses_simps split: option.splits)

lemma done_read_loop_aux: "read_loop L d ls ans = (tr, fin) \<Longrightarrow> done_statuses tr = []"
proof (induction ls arbitrary: ans tr fin)
  case Nil
  then show ?case by (simp add: done_statuses_simps)
next
  case (Cons raw rest)
  from Cons.prems show ?case
    by (auto simp: Let_def done_statuses_simps done_progress_line
        split: prod.splits list.splits if_splits dest: Cons.IH)
qed

lemma done_read_loop: "done_statuses (fst (read_loop L d ls ans)) = []"
  using done_read_loop_aux [of L d ls ans] by (cases "read_loop L d ls ans") simp

lemma done_exit_status:
  "done_statuses (case exit_status c rc of
       (tr, Raised e) \<Rightarrow> tr @ [Put (Log (Fatal e)), Put (Error_ev e), Put (Done Error)]
     | (tr, out) \<Rightarrow> tr)
   = [if c then Cancelled else if rc = 0 then Saved else if rc = 3 then NoSave
      else if rc = 2 then Cancelled else Error]"
  by (simp add: exit_status_def done_statuses_simps)

lemma run_powershell_unfold:
  "script_exists e \<Longrightarrow> list_written e \<Longrightarrow> process_started e \<Longrightarrow>
   snd (read_loop L (default_name e) (output_lines e) (answers e)) = Returned \<Longrightarrow>
   run L (PowerShell e) =
     Put (Log (Script_file_count (length (ps_files e))))
       # fst (read_loop L (default_name e) (output_lines e) (answers e))
       @ (case exit_status (cancel_at_exit e) (exit_code e) of
            (tr, Raised x) \<Rightarrow> tr @ [Put (Log (Fatal x)), Put (Error_ev x), Put (Done Error)]
          | (tr, out) \<Rightarrow> tr)"
  by (cases "read_loop L (default_name e) (output_lines e) (answers e)")
    (auto simp: run_def run_impl_powershell_def Let_def exit_status_def)

text \<open>
  C4, as the code has it. In a run of the fallback strategy in which the process was
  started and the read loop came to the end of its output (no save request was left
  without an answer, and no write of an answer to the process raised), the cancel flag
  is looked at first: if it is set the status is \<open>Cancelled\<close> whatever the exit code;
  otherwise exit code 0 gives \<open>Saved\<close>, 3 gives \<open>NoSave\<close>, 2 gives \<open>Cancelled\<close> and every
  other code gives \<open>Error\<close>. The run reports exactly one status.
\<close>

theorem exit_code_status:
  "script_exists e \<Longrightarrow> list_written e \<Longrightarrow> process_started e \<Longrightarrow>
   snd (read_loop L (default_name e) (output_lines e) (answers e)) = Returned \<Longrightarrow>
   done_statuses (run L (PowerShell e)) =
     [if cancel_at_exit e then Cancelled
      else if exit_code e = 0 then Saved
      else if exit_code e = 3 then NoSave
      else if exit_code e = 2 then Cancelled
      else Error]"
  by (simp only: run_powershell_unfold done_statuses_simps done_read_loop done_exit_status
      append_Nil)

lemma example_request_line:
  "strip (lit ''REQUEST_SAVE|m.xlsx'') \<noteq> []"
  "\<not> startswith (strip (lit ''REQUEST_SAVE|m.xlsx'')) (lit ''LOG|'')"
  "\<not> startswith (strip (lit ''REQUEST_SAVE|m.xlsx'')) (lit ''PROGRESS|'')"
  "startswith (strip (lit ''REQUEST_SAVE|m.xlsx'')) (lit ''REQUEST_SAVE|'')"
proof -
  have line: "strip (lit ''REQUEST_SAVE|m.xlsx'') = lit ''REQUEST_SAVE|m.xlsx''"
    by (simp add: strip_def lstrip_def rstrip_def isspace_def lit_def)
  show "strip (lit ''REQUEST_SAVE|m.xlsx'') \<noteq> []"
    "\<not> startswith (strip (lit ''REQUEST_SAVE|m.xlsx'')) (lit ''LOG|'')"
    "\<not> startswith (strip (lit ''REQUEST_SAVE|m.xlsx'')) (lit ''PROGRESS|'')"
    "startswith (strip (lit ''REQUEST_SAVE|m.xlsx'')) (lit ''REQUEST_SAVE|'')"
    unfolding line by (simp_all add: startswith_def lit_def)
qed

theorem exit_code_status_witness:
  "done_statuses (run ascii_lib (PowerShell
      \<lparr>script_exists = True, list_written = True, process_started = True, ps_files = [],
       default_name = lit ''m.xlsx'', output_lines = [lit ''REQUEST_SAVE|m.xlsx''],
       answers = [(None, True)], exit_code = 3, cancel_at_exit = False\<rparr>))
   = [NoSave]"
proof -
  have "snd (read_loop ascii_lib (lit ''m.xlsx'') [lit ''REQUEST_SAVE|m.xlsx''] [(None, True)])
      = Returned"
    by (simp add: example_request_line Let_def)
  then show ?thesis
    using exit_code_status [of "\<lparr>script_exists = True, list_written = True,
       process_started = True, ps_files = [],
       default_name = lit ''m.xlsx'', output_lines = [lit ''REQUEST_SAVE|m.xlsx''],
       answers = [(None, True)], exit_code = 3, cancel_at_exit = False\<rparr>" ascii_lib]
    by simp
qed

text \<open>
  C4, as the claim states it, fails: a process that ends with exit code 0 while the
  cancel flag is set is reported as \<open>Cancelled\<close>, not as \<open>Saved\<close>.
\<close>

theorem exit_code_status_counterexample:
  "done_statuses (run ascii_lib (PowerShell
      \<lparr>script_exists = True, list_written = True, process_started = True, ps_files = [],
       default_name = lit ''m.xlsx'', output_lines = [], answers = [],
       exit_code = 0, cancel_at_exit = True\<rparr>))
   = [Cancelled] \<and>
   done_statuses (run ascii_lib (PowerShell
      \<lparr>script_exists = True, list_written = True, process_started = True, ps_files = [],
       default_name = lit ''m.xlsx'', output_lines = [], answers = [],
       exit_code = 0, cancel_at_exit = True\<rparr>))
   \<noteq> [Saved]"
  by (simp add: run_def run_impl_powershell_def exit_status_def done_statuses_simps)

text \<open>
  Where the write of an answer to the process raises, the exit code is never read: the
  run ends with status \<open>Error\<close>, here with exit code 0 and the cancel flag not set.
\<close>

lemma write_failure_is_error:
  "done_statuses (run ascii_lib (PowerShell
      \<lparr>script_exists = True, list_written = True, process_started = True, ps_files = [],
       default_name = lit ''m.xlsx'', output_lines = [lit ''REQUEST_SAVE|m.xlsx''],
       answers = [(Some (lit ''o/m.xlsx''), False)], exit_code = 0, cancel_at_exit = False\<rparr>))
   = [Error]"
proof -
  have "read_loop ascii_lib (lit ''m.xlsx'') [lit ''REQUEST_SAVE|m.xlsx'']
          [(Some (lit ''o/m.xlsx''), False)]
      = ([Put (Request_save (if 124 \<in> set (strip (lit ''REQUEST_SAVE|m.xlsx''))
                             then split_max 124 1 (strip (lit ''REQUEST_SAVE|m.xlsx'')) ! 1
                             else lit ''m.xlsx''))], Raised Broken_pipe)"
    by (simp add: example_request_line Let_def)
  then show ?thesis
    by (simp add: run_def run_impl_powershell_def done_statuses_simps)
qed

lemma split_max_head:
  "sep \<notin> set a \<Longrightarrow> split_max sep (Suc k) (a @ sep # s) = a # split_max sep k s"
proof -
  assume a: "sep \<notin> set a"
  then have "takeWhile (\<lambda>c. c \<noteq> sep) (a @ sep # s) = a"
    by (induction a) simp_all
  moreover from a have "dropWhile (\<lambda>c. c \<noteq> sep) (a @ sep # s) = sep # s"
    by (induction a) simp_all
  ultimately show ?thesis
    by simp
qed

lemma split_progress:
  assumes "124 \<notin> set c" "124 \<notin> set t"
  shows "split_max 124 3 (lit ''PROGRESS|'' @ c @ [124] @ t @ [124] @ f) = [lit ''PROGRESS'', c, t, f]"
proof -
  have p: "lit ''PROGRESS|'' = lit ''PROGRESS'' @ [124]" and np: "124 \<notin> set (lit ''PROGRESS'')"
    by (simp_all add: lit_def)
  have n3: "(3::nat) = Suc (Suc (Suc 0))"
    by simp
  have "split_max 124 3 (lit ''PROGRESS'' @ 124 # c @ 124 # t @ 124 # f) = [lit ''PROGRESS'', c, t, f]"
    unfolding n3 by (simp only: split_max_head [OF np] split_max_head [OF assms(1)]
        split_max_head [OF assms(2)] split_max.simps(1))
  then show ?thesis
    by (simp add: p)
qed

lemma progress_line_fields:
  assumes "124 \<notin> set c" "124 \<notin> set t"
  shows "progress_line L (lit ''PROGRESS|'' @ c @ [124] @ t @ [124] @ f) =
     (case py_int L c of
        None \<Rightarrow> []
      | Some cv \<Rightarrow> (case py_int L t of None \<Rightarrow> [] | Some tv \<Rightarrow> [Put (Progress cv tv f)]))"
  by (simp only: progress_line_def split_progress [OF assms] Let_def)
    (simp add: numeral_2_eq_2 numeral_3_eq_3 split: option.splits)

lemma read_loop_progress:
  assumes "strip raw = lit ''PROGRESS|'' @ c @ [124] @ t @ [124] @ f"
  shows "read_loop L d (raw # rest) ans =
     (progress_line L (strip raw) @ fst (read_loop L d rest ans), snd (read_loop L d rest ans))"
proof -
  have "strip raw \<noteq> []" "\<not> startswith (strip raw) (lit ''LOG|'')"
    "startswith (strip raw) (lit ''PROGRESS|'')"
    unfolding assms by (simp_all add: startswith_def) (simp_all add: lit_def)
  then show ?thesis
    by (simp add: Let_def split: prod.splits)
qed

text \<open>
  C8. A line \<open>PROGRESS|c|t|f\<close> of the script process whose field \<open>c\<close> or \<open>t\<close> is not a
  number for \<open>int\<close> is skipped: the read loop goes on as if the line were not there, so
  no event is put on the queue and nothing is raised, and the whole run is the run
  without the line. When both fields are numbers, the line is forwarded as the progress
  event with these numbers and the file name \<open>f\<close>.
\<close>

theorem progress_line_skipped_or_forwarded:
  assumes "strip raw = lit ''PROGRESS|'' @ c @ [124] @ t @ [124] @ f"
    and "124 \<notin> set c" and "124 \<notin> set t"
  shows "(py_int L c = None \<or> py_int L t = None \<longrightarrow>
            read_loop L d (raw # rest) ans = read_loop L d rest ans \<and>
            run L (PowerShell (e\<lparr>default_name := d, output_lines := raw # rest, answers := ans\<rparr>))
              = run L (PowerShell (e\<lparr>default_name := d, output_lines := rest, answers := ans\<rparr>))) \<and>
         (\<forall>cv tv. py_int L c = Some cv \<and> py_int L t = Some tv \<longrightarrow>
            read_loop L d (raw # rest) ans =
              (Put (Progress cv tv f) # fst (read_loop L d rest ans), snd (read_loop L d rest ans)))"
proof -
  have step: "read_loop L d (raw # rest) ans =
     ((case py_int L c of
         None \<Rightarrow> []
       | Some cv \<Rightarrow> (case py_int L t of None \<Rightarrow> [] | Some tv \<Rightarrow> [Put (Progress cv tv f)]))
        @ fst (read_loop L d rest ans), snd (read_loop L d rest ans))"
    using read_loop_progress [OF assms(1)] progress_line_fields [OF assms(2,3)]
    by (simp only: assms(1))
  have skip: "read_loop L d (raw # rest) ans = read_loop L d rest ans"
    if "py_int L c = None \<or> py_int L t = None"
    using that by (auto simp: step simp del: read_loop.simps split: option.splits)
  have "run L (PowerShell (e\<lparr>default_name := d, output_lines := raw # rest, answers := ans\<rparr>))
        = run L (PowerShell (e\<lparr>default_name := d, output_lines := rest, answers := ans\<rparr>))"
    if "py_int L c = None \<or> py_int L t = None"
    using skip [OF that]
    by (cases "read_loop L d rest ans") (simp add: run_def run_impl_powershell_def Let_def del: read_loop.simps split: outcome.splits)
  moreover have "read_loop L d (raw # rest) ans =
      (Put (Progress cv tv f) # fst (read_loop L d rest ans), snd (read_loop L d rest ans))"
    if "py_int L c = Some cv \<and> py_int L t = Some tv" for cv tv
    using that by (simp add: step del: read_loop.simps)
  ultimately show ?thesis
    using skip by blast
qed

theorem progress_line_skipped_or_forwarded_witness:
  "read_loop ascii_lib [] [lit ''PROGRESS|x|3|a.xls'' @ [10]] [] = ([], Returned) \<and>
   read_loop ascii_lib [] [lit ''PROGRESS|2|3|a.xls'' @ [10]] []
     = ([Put (Progress 2 3 (lit ''a.xls''))], Returned)"
proof -
  have bad: "strip (lit ''PROGRESS|x|3|a.xls'' @ [10])
      = lit ''PROGRESS|'' @ lit ''x'' @ [124] @ lit ''3'' @ [124] @ lit ''a.xls''"
    and good: "strip (lit ''PROGRESS|2|3|a.xls'' @ [10])
      = lit ''PROGRESS|'' @ lit ''2'' @ [124] @ lit ''3'' @ [124] @ lit ''a.xls''"
    by (simp_all add: strip_def lstrip_def rstrip_def isspace_def lit_def)
  have bar: "124 \<notin> set (lit ''x'')" "124 \<notin> set (lit ''3'')" "124 \<notin> set (lit ''2'')"
    by (simp_all add: lit_def)
  have num: "py_int ascii_lib (lit ''x'') = None" "py_int ascii_lib (lit ''3'') = Some 3"
    "py_int ascii_lib (lit ''2'') = Some 2"
    by (simp_all add: ascii_lib_def ascii_int_def Let_def strip_def lstrip_def rstrip_def
        isspace_def lit_def)
  have "read_loop ascii_lib [] [lit ''PROGRESS|x|3|a.xls'' @ [10]] [] = read_loop ascii_lib [] [] []"
    using progress_line_skipped_or_forwarded [OF bad bar(1,2), of ascii_lib "[]" "[]" "[]"] num
    by blast
  moreover have "read_loop ascii_lib [] [lit ''PROGRESS|2|3|a.xls'' @ [10]] []
      = (Put (Progress 2 3 (lit ''a.xls'')) # fst (read_loop ascii_lib [] [] []),
         snd (read_loop ascii_lib [] [] []))"
    using progress_line_skipped_or_forwarded [OF good bar(3,2), of ascii_lib "[]" "[]" "[]"] num
    by blast
  ultimately show ?thesis
    by simp
qed

subsection \<open>Facts about the primary strategy\<close>

lemma copy_sheets_Cons:
  "copy_sheets (ws # rest) st =
     (if cancel_at_sheet ws then (st, True)
      else case copy_result ws of
             None \<Rightarrow> (st, False)
           | Some h \<Rightarrow>
               (case chosen_name ws (set (map snd (dest st))) of
                  None \<Rightarrow> (copied_state h st, False)
                | Some nm \<Rightarrow>
                    copy_sheets rest (renamed (fresh st) (ws_name ws) nm (copied_state h st))))"
  by (simp add: chosen_name_def copied_state_def Let_def split: option.splits sum.splits)

lemma copy_sheets_preserves:
  assumes copy: "\<And>s h. P s \<Longrightarrow> P (copied_state h s)"
    and ren: "\<And>s i d nm. P s \<Longrightarrow> P (renamed i d nm s)"
  shows "P st \<Longrightarrow> P (fst (copy_sheets wss st))"
proof (induction wss arbitrary: st)
  case Nil
  then show ?case by simp
next
  case (Cons ws rest)
  show ?case
    unfolding copy_sheets_Cons
    using Cons.prems by (auto split: option.splits intro: Cons.IH copy ren)
qed

lemma merge_files_preserves:
  assumes copy: "\<And>s h. P s \<Longrightarrow> P (copied_state h s)"
    and ren: "\<And>s i d nm. P s \<Longrightarrow> P (renamed i d nm s)"
    and rep: "\<And>s as. P s \<Longrightarrow> list_all is_report as \<Longrightarrow> P (emit as s)"
  shows "P st \<Longrightarrow> P (merge_files idx n fs st)"
proof (induction fs arbitrary: idx st)
  case Nil
  then show ?case by simp
next
  case (Cons f rest)
  show ?case
  proof (cases "cancel_at_file f")
    case True
    with Cons.prems show ?thesis
      by (simp add: rep is_report_def)
  next
    case False
    define st1 where
      "st1 = emit [Put (Progress (int idx) (int n) (name (src_path f))),
                   Put (Log (Opening (name (src_path f))))] st"
    define st2 where
      "st2 = (case worksheets f of
                None \<Rightarrow> emit [Put (Log (Warn (name (src_path f))))] st1
              | Some wss \<Rightarrow>
                  (case copy_sheets wss st1 of
                     (s, True) \<Rightarrow> s
                   | (s, False) \<Rightarrow> emit [Put (Log (Warn (name (src_path f))))] s))"
    have 1: "P st1"
      unfolding st1_def using Cons.prems by (intro rep) (simp_all add: is_report_def)
    have 2: "P st2"
    proof (cases "worksheets f")
      case None
      then show ?thesis
        unfolding st2_def using 1 by (simp add: rep is_report_def)
    next
      case (Some wss)
      have "P (fst (copy_sheets wss st1))"
        using copy ren 1 by (rule copy_sheets_preserves)
      then show ?thesis
        unfolding st2_def Some
        by (cases "copy_sheets wss st1") (auto simp: rep is_report_def split: bool.splits)
    qed
    have "merge_files idx n (f # rest) st = merge_files (Suc idx) n rest st2"
      unfolding st2_def st1_def using False by (simp add: Let_def)
    then show ?thesis
      using Cons.IH [OF 2] by simp
  qed
qed

lemma extends_refl: "extends Q st st"
  by (simp add: extends_def)

lemma extends_iff: "extends Q st st' \<longleftrightarrow> (\<exists>as. trace st' = trace st @ as \<and> list_all Q as)"
proof
  assume "extends Q st st'"
  then have "trace st' = trace st @ drop (length (trace st)) (trace st')"
    and "list_all Q (drop (length (trace st)) (trace st'))"
    by (simp_all add: extends_def) (metis append_take_drop_id)
  then show "\<exists>as. trace st' = trace st @ as \<and> list_all Q as"
    by blast
next
  assume "\<exists>as. trace st' = trace st @ as \<and> list_all Q as"
  then show "extends Q st st'"
    by (auto simp: extends_def)
qed

lemma extends_emit: "extends Q st s \<Longrightarrow> list_all Q as \<Longrightarrow> extends Q st (emit as s)"
  by (auto simp: extends_iff emit_def)

lemma extends_copied_state: "extends Q st s \<Longrightarrow> extends Q st (copied_state h s)"
  by (simp add: extends_def copied_state_def set_dest_def)

lemma extends_renamed:
  "extends Q st s \<Longrightarrow> Q (Put (Log (Copied d nm))) \<Longrightarrow> extends Q st (renamed i d nm s)"
  by (auto simp: extends_iff renamed_def emit_def set_dest_def)

lemma extends_merge_files: "extends is_report st (merge_files idx n fs st)"
proof (rule merge_files_preserves [where P = "extends is_report st"])
  show "extends is_report st st"
    by (rule extends_refl)
qed (simp_all add: extends_copied_state extends_renamed extends_emit is_report_def)

lemma extends_trans: "extends Q a b \<Longrightarrow> extends Q b c \<Longrightarrow> extends Q a c"
  by (auto simp: extends_iff)

lemma delete_sheets_Cons:
  "delete_sheets ok (sh # rest) st =
     (if length (dest st) \<le> 1 then st
      else if ok sh then
        delete_sheets ok rest
          (emit [Delete_sheet sh (length (dest st))] (set_dest (remove_sheet sh (dest st)) st))
      else delete_sheets ok rest st)"
  by simp

lemma extends_delete_sheets:
  "extends (\<lambda>a. \<exists>i n. a = Delete_sheet i n) st (delete_sheets ok shs st)"
proof (induction shs arbitrary: st)
  case Nil
  show ?case by (simp add: extends_refl)
next
  case (Cons sh rest)
  let ?st' = "emit [Delete_sheet sh (length (dest st))] (set_dest (remove_sheet sh (dest st)) st)"
  have "extends (\<lambda>a. \<exists>i n. a = Delete_sheet i n) st ?st'"
    by (simp add: extends_def emit_def set_dest_def)
  then have "extends (\<lambda>a. \<exists>i n. a = Delete_sheet i n) st (delete_sheets ok rest ?st')"
    using Cons.IH [of ?st'] by (rule extends_trans)
  then show ?case
    unfolding delete_sheets_Cons using Cons.IH [of st] by (simp add: extends_refl)
qed

subsection \<open>Deletions in a trace\<close>







subsection \<open>The state stays sound\<close>











lemma run_Com: "run L (Com env) = trace (fst (run_impl L env)) @ handled (snd (run_impl L env))"
  by (cases "run_impl L env") (auto simp: run_def handled_def split: outcome.splits)


text \<open>A run whose start succeeds, in its two ways out of the file loop.\<close>

lemma run_impl_started:
  assumes "start env = Inr names"
  shows "run_impl L env =
     (if cancel_after env then
        (emit (fst (close_and_quit (close_ok env) (quit_ok env) Cancelled))
           (merge_files 1 (length (files env)) (files env) (initial_state env)),
         snd (close_and_quit (close_ok env) (quit_ok env) Cancelled))
      else
        (emit (fst (save_loop L (suggested env) (close_ok env) (quit_ok env) (rounds env)))
           (emit [Put (Log Merged)]
              (remove_initial_sheets (delete_ok env)
                 (if enumerated env then map fst (dest (initial_state env)) else [])
                 (merge_files 1 (length (files env)) (files env) (initial_state env)))),
         snd (save_loop L (suggested env) (close_ok env) (quit_ok env) (rounds env))))"
  by (simp add: run_impl_def assms Let_def split: prod.splits)


subsection \<open>The example run\<close>















subsection \<open>Progress events of the file loop\<close>

lemma progress_copy_sheets:
  "progress_events (trace (fst (copy_sheets wss st))) = progress_events (trace st)"
proof (rule copy_sheets_preserves
    [where P = "\<lambda>s. progress_events (trace s) = progress_events (trace st)"])
  show "progress_events (trace st) = progress_events (trace st)"
    by simp
qed (simp_all add: copied_state_def renamed_def set_dest_def emit_def progress_events_simps)

lemma progress_merge_files:
  "\<forall>f \<in> set fs. \<not> cancel_at_file f \<Longrightarrow>
   progress_events (trace (merge_files idx n fs st)) =
     progress_events (trace st)
       @ map (\<lambda>(i, f). (int i, int n, name (src_path f))) (zip [idx..<idx + length fs] fs)"
proof (induction fs arbitrary: idx st)
  case Nil
  show ?case by simp
next
  case (Cons f rest)
  define st1 where
    "st1 = emit [Put (Progress (int idx) (int n) (name (src_path f))),
                 Put (Log (Opening (name (src_path f))))] st"
  define st2 where
    "st2 = (case worksheets f of
              None \<Rightarrow> emit [Put (Log (Warn (name (src_path f))))] st1
            | Some wss \<Rightarrow>
                (case copy_sheets wss st1 of
                   (s, True) \<Rightarrow> s
                 | (s, False) \<Rightarrow> emit [Put (Log (Warn (name (src_path f))))] s))"
  have 1: "progress_events (trace st1) =
      progress_events (trace st) @ [(int idx, int n, name (src_path f))]"
    by (simp add: st1_def emit_def progress_events_simps)
  have 2: "progress_events (trace st2) = progress_events (trace st1)"
  proof (cases "worksheets f")
    case None
    then show ?thesis
      by (simp add: st2_def emit_def progress_events_simps)
  next
    case (Some wss)
    then show ?thesis
      using progress_copy_sheets [of wss st1]
      by (cases "copy_sheets wss st1")
        (auto simp: st2_def emit_def progress_events_simps split: bool.splits)
  qed
  have step: "merge_files idx n (f # rest) st = merge_files (Suc idx) n rest st2"
    unfolding st2_def st1_def using Cons.prems by (simp add: Let_def)
  have "[idx..<idx + length (f # rest)] = idx # [Suc idx..<Suc idx + length rest]"
    by (subst upt_rec) simp
  then show ?case
    unfolding step using Cons.IH [of "Suc idx" st2] Cons.prems by (simp add: 1 2 del: upt_Suc)
qed

lemma merge_actions_silent:
  assumes "list_all is_merge_action as"
  shows "save_requests as = []" "done_statuses as = []" "saved_paths as = []"
    "Close_unsaved \<notin> set as"
  using assms
  by (induction as;
      auto simp: save_requests_def done_statuses_def saved_paths_def is_merge_action_def is_report_def
        split: action.splits event.splits)+

lemma deletions_no_progress:
  "list_all (\<lambda>a. \<exists>i n. a = Delete_sheet i n) as \<Longrightarrow> progress_events as = []"
  by (induction as) (auto simp: progress_events_simps)

lemma close_and_quit_no_progress: "progress_events (fst (close_and_quit c q s)) = []"
  by (simp add: close_and_quit_def progress_events_simps)

lemma save_loop_no_progress: "progress_events (fst (save_loop L s c q rs)) = []"
  by (induction L s c q rs rule: save_loop.induct)
    (auto simp: Let_def close_and_quit_def progress_events_simps split: prod.splits)

lemma handled_no_progress: "progress_events (handled out) = []"
  by (simp add: handled_def progress_events_simps split: outcome.splits)

text \<open>The trace of a run whose start succeeds: what comes before its way out, and the way out.\<close>

lemma run_impl_trace:
  assumes st: "start env = Inr names"
  shows "\<exists>as. list_all is_merge_action as \<and>
        progress_events as =
          progress_events (trace (merge_files 1 (length (files env)) (files env) (initial_state env))) \<and>
        run L (Com env) =
          (if cancel_after env then
             as @ fst (close_and_quit (close_ok env) (quit_ok env) Cancelled)
                @ handled (snd (close_and_quit (close_ok env) (quit_ok env) Cancelled))
           else
             as @ fst (save_loop L (suggested env) (close_ok env) (quit_ok env) (rounds env))
                @ handled (snd (save_loop L (suggested env) (close_ok env) (quit_ok env) (rounds env))))"
proof -
  let ?st0 = "initial_state env"
  let ?st1 = "merge_files 1 (length (files env)) (files env) ?st0"
  let ?init = "if enumerated env then map fst (dest ?st0) else []"
  let ?st2 = "remove_initial_sheets (delete_ok env) ?init ?st1"
  have rep: "list_all is_merge_action as" if "list_all is_report as" for as
    using that by (auto simp: list_all_iff is_merge_action_def is_report_def split: action.splits)
  have del: "list_all is_merge_action as" if "list_all (\<lambda>a. \<exists>i n. a = Delete_sheet i n) as" for as
    using that by (auto simp: list_all_iff is_merge_action_def)
  obtain as1 where as1: "trace ?st1 = trace ?st0 @ as1" "list_all is_report as1"
    using extends_merge_files [of ?st0 1 "length (files env)" "files env"]
    by (auto simp: extends_iff)
  have "extends (\<lambda>a. \<exists>i n. a = Delete_sheet i n) ?st1 ?st2"
    unfolding remove_initial_sheets_def by (simp add: extends_delete_sheets extends_refl)
  then obtain as2 where as2: "trace ?st2 = trace ?st1 @ as2"
    "list_all (\<lambda>a. \<exists>i n. a = Delete_sheet i n) as2"
    by (auto simp: extends_iff)
  have t0: "list_all is_merge_action (trace ?st0)"
    by (simp add: initial_state_def Let_def is_merge_action_def is_report_def)
  show ?thesis
  proof (cases "cancel_after env")
    case True
    then have "run L (Com env) =
        trace ?st1 @ fst (close_and_quit (close_ok env) (quit_ok env) Cancelled)
          @ handled (snd (close_and_quit (close_ok env) (quit_ok env) Cancelled))"
      by (simp add: run_Com run_impl_started [OF st] emit_def)
    moreover have "list_all is_merge_action (trace ?st1)"
      unfolding as1(1) using t0 rep [OF as1(2)] by simp
    ultimately show ?thesis
      using True by (intro exI [of _ "trace ?st1"]) simp
  next
    case False
    then have "run L (Com env) =
        (trace ?st2 @ [Put (Log Merged)])
          @ fst (save_loop L (suggested env) (close_ok env) (quit_ok env) (rounds env))
          @ handled (snd (save_loop L (suggested env) (close_ok env) (quit_ok env) (rounds env)))"
      by (simp add: run_Com run_impl_started [OF st] emit_def)
    moreover have "list_all is_merge_action (trace ?st2 @ [Put (Log Merged)])"
      unfolding as2(1) as1(1) using t0 rep [OF as1(2)] del [OF as2(2)]
      by (simp add: is_merge_action_def is_report_def)
    moreover have "progress_events (trace ?st2 @ [Put (Log Merged)]) = progress_events (trace ?st1)"
      unfolding as2(1) using deletions_no_progress [OF as2(2)] by (simp add: progress_events_simps)
    ultimately show ?thesis
      using False by (intro exI [of _ "trace ?st2 @ [Put (Log Merged)]"]) simp
  qed
qed

text \<open>
  C7, as the code has it. In a run of the primary strategy over \<open>N\<close> files in which the
  start succeeds (the application is started and the new workbook is created) and the
  cancel flag is not set at the check before any file, exactly \<open>N\<close> progress events are
  put on the queue, one per file and in the order of the files: the \<open>i\<close>-th carries
  \<open>(i, N, name)\<close> with the name of the \<open>i\<close>-th file, so the indices are \<open>1, 2, ..., N\<close>.
  This holds whether or not a file can be opened or copied, and however the run ends.
\<close>

theorem progress_once_per_file:
  assumes "start env = Inr names"
    and "\<forall>f \<in> set (files env). \<not> cancel_at_file f"
  shows "progress_events (run L (Com env)) =
           map (\<lambda>(i, f). (int i, int (length (files env)), name (src_path f)))
             (zip [1..<Suc (length (files env))] (files env)) \<and>
         length (progress_events (run L (Com env))) = length (files env) \<and>
         map fst (progress_events (run L (Com env))) = map int [1..<Suc (length (files env))]"
proof -
  let ?N = "length (files env)"
  let ?evs = "map (\<lambda>(i, f). (int i, int ?N, name (src_path f))) (zip [1..<Suc ?N] (files env))"
  have "progress_events (trace (merge_files 1 ?N (files env) (initial_state env))) = ?evs"
    using progress_merge_files [OF assms(2), of 1 ?N "initial_state env"]
    by (simp add: initial_state_def Let_def progress_events_simps del: upt_Suc)
  then have eq: "progress_events (run L (Com env)) = ?evs"
    using run_impl_trace [OF assms(1), of L]
    by (auto simp: progress_events_simps save_loop_no_progress close_and_quit_no_progress
        handled_no_progress)
  have "map fst ?evs = map (int \<circ> fst) (zip [1..<Suc ?N] (files env))"
    by (simp add: case_prod_beta comp_def del: upt_Suc)
  also have "\<dots> = map int (map fst (zip [1..<Suc ?N] (files env)))"
    by (simp only: map_map)
  also have "\<dots> = map int [1..<Suc ?N]"
    by (simp add: map_fst_zip del: upt_Suc)
  finally show ?thesis
    using eq by (simp del: upt_Suc)
qed

theorem progress_once_per_file_witness:
  "progress_events (run ascii_lib (Com example_env)) =
     [(1, 2, lit ''A.xlsx''), (2, 2, lit ''B.xlsx'')] \<and>
   length (progress_events (run ascii_lib (Com example_env))) = length (files example_env)"
proof -
  have "start example_env = Inr [lit ''Sheet1'']"
    and "\<forall>f \<in> set (files example_env). \<not> cancel_at_file f"
    by (simp_all add: example_env_def)
  from progress_once_per_file [OF this, of ascii_lib] show ?thesis
    by (simp add: example_env_def upt_rec)
qed

text \<open>
  C7, as the claim states it, fails: when the start raises (the automation modules are
  there but the application cannot be started), a run over two files in which the
  cancel flag is never set puts no progress event and ends with status \<open>Error\<close>.
\<close>

theorem progress_once_per_file_counterexample:
  "list_all (\<lambda>f. \<not> cancel_at_file f) (files (example_env\<lparr>start := Inl Com_error\<rparr>)) \<and>
   length (files (example_env\<lparr>start := Inl Com_error\<rparr>)) = 2 \<and>
   progress_events (run ascii_lib (Com (example_env\<lparr>start := Inl Com_error\<rparr>))) = [] \<and>
   done_statuses (run ascii_lib (Com (example_env\<lparr>start := Inl Com_error\<rparr>))) = [Error]"
  by (simp add: run_def run_impl_def example_env_def progress_events_simps done_statuses_simps)

subsection \<open>Facts about the save handshake\<close>

lemma save_loop_fail:
  "save_loop L s c q (Some (p, False) # rs) =
     ([Put (Request_save s), SaveAs p (fileformat_for_path L p) False, Put (Log Save_failed)]
        @ fst (save_loop L s c q rs), snd (save_loop L s c q rs))"
  by (simp add: Let_def split: prod.splits)

lemma save_loop_first: "\<exists>tr. fst (save_loop L s c q rs) = Put (Request_save s) # tr"
  by (induction L s c q rs rule: save_loop.induct) (auto simp: Let_def split: prod.splits)

lemma save_loop_same_request: "set (save_requests (fst (save_loop L s c q rs))) \<subseteq> {s}"
  by (induction L s c q rs rule: save_loop.induct)
    (auto simp: Let_def close_and_quit_def save_requests_simps split: prod.splits)

lemma handled_silent: "save_requests (handled out) = []" "saved_paths (handled out) = []"
  by (simp_all add: handled_def save_requests_simps saved_paths_simps split: outcome.splits)

text \<open>Failed saves: each is a request and a failed \<open>SaveAs\<close>, and the loop goes on.\<close>

lemma save_loop_failures:
  "\<exists>tr. fst (save_loop L s c q (map (\<lambda>p. Some (p, False)) ps @ rest))
          = tr @ fst (save_loop L s c q rest) \<and>
        snd (save_loop L s c q (map (\<lambda>p. Some (p, False)) ps @ rest)) = snd (save_loop L s c q rest) \<and>
        save_requests tr = replicate (length ps) s \<and> done_statuses tr = [] \<and> saved_paths tr = []"
proof (induction ps)
  case Nil
  show ?case
    by (simp add: save_requests_simps done_statuses_simps saved_paths_simps)
next
  case (Cons p ps)
  then obtain tr where tr: "fst (save_loop L s c q (map (\<lambda>p. Some (p, False)) ps @ rest))
          = tr @ fst (save_loop L s c q rest)"
    "snd (save_loop L s c q (map (\<lambda>p. Some (p, False)) ps @ rest)) = snd (save_loop L s c q rest)"
    "save_requests tr = replicate (length ps) s" "done_statuses tr = []" "saved_paths tr = []"
    by blast
  let ?tr = "[Put (Request_save s), SaveAs p (fileformat_for_path L p) False, Put (Log Save_failed)] @ tr"
  have "fst (save_loop L s c q (map (\<lambda>p. Some (p, False)) (p # ps) @ rest))
      = ?tr @ fst (save_loop L s c q rest)"
    and "snd (save_loop L s c q (map (\<lambda>p. Some (p, False)) (p # ps) @ rest))
      = snd (save_loop L s c q rest)"
    by (simp_all add: save_loop_fail tr del: save_loop.simps)
  moreover have "save_requests ?tr = replicate (length (p # ps)) s" "done_statuses ?tr = []"
    "saved_paths ?tr = []"
    by (simp_all add: save_requests_simps done_statuses_simps saved_paths_simps tr)
  ultimately show ?case
    by blast
qed

text \<open>The three ways the handshake goes on after the failed saves, with the handler.\<close>

lemma handshake_waits:
  "fst (save_loop L s c q []) @ handled (snd (save_loop L s c q [])) = [Put (Request_save s)]"
  by (simp add: handled_def)

lemma handshake_abort:
  "fst (save_loop L s c q (None # later)) @ handled (snd (save_loop L s c q (None # later))) =
     [Put (Request_save s), Put (Log Save_declined)]
       @ (if c \<and> q then [Close_unsaved, Quit, Put (Done NoSave)]
          else (if c then [Close_unsaved] else [])
               @ [Put (Log (Fatal Com_error)), Put (Error_ev Com_error), Put (Done Error)])"
  by (simp add: handled_def close_and_quit_def)

lemma handshake_success:
  "fst (save_loop L s c q (Some (p, True) # later))
     @ handled (snd (save_loop L s c q (Some (p, True) # later))) =
     [Put (Request_save s), SaveAs p (fileformat_for_path L p) True, Put (Log (Saved_to p))]
       @ (if c \<and> q then [Close_unsaved, Quit, Put (Done Saved)]
          else (if c then [Close_unsaved] else [])
               @ [Put (Log (Fatal Com_error)), Put (Error_ev Com_error), Put (Done Error)])"
  by (simp add: handled_def close_and_quit_def Let_def)

text \<open>
  A run that comes to the handshake after \<open>ps\<close> failed saves: what was put before is
  silent but for one request for each failed save.
\<close>

lemma run_handshake:
  assumes "start env = Inr names" and "\<not> cancel_after env"
    and "rounds env = map (\<lambda>p. Some (p, False)) ps @ rest"
  shows "\<exists>as. run L (Com env) =
          as @ fst (save_loop L (suggested env) (close_ok env) (quit_ok env) rest)
             @ handled (snd (save_loop L (suggested env) (close_ok env) (quit_ok env) rest)) \<and>
      save_requests as = replicate (length ps) (suggested env) \<and>
      done_statuses as = [] \<and> saved_paths as = []"
proof -
  obtain as where as: "list_all is_merge_action as"
    and run: "run L (Com env) =
      as @ fst (save_loop L (suggested env) (close_ok env) (quit_ok env) (rounds env))
         @ handled (snd (save_loop L (suggested env) (close_ok env) (quit_ok env) (rounds env)))"
    using run_impl_trace [OF assms(1), of L] assms(2) by auto
  obtain tr where tr:
    "fst (save_loop L (suggested env) (close_ok env) (quit_ok env) (rounds env))
       = tr @ fst (save_loop L (suggested env) (close_ok env) (quit_ok env) rest)"
    "snd (save_loop L (suggested env) (close_ok env) (quit_ok env) (rounds env))
       = snd (save_loop L (suggested env) (close_ok env) (quit_ok env) rest)"
    "save_requests tr = replicate (length ps) (suggested env)"
    "done_statuses tr = []" "saved_paths tr = []"
    unfolding assms(3)
    using save_loop_failures [of L "suggested env" "close_ok env" "quit_ok env" ps rest] by blast
  have "run L (Com env) =
      (as @ tr) @ fst (save_loop L (suggested env) (close_ok env) (quit_ok env) rest)
         @ handled (snd (save_loop L (suggested env) (close_ok env) (quit_ok env) rest))"
    by (simp add: run tr(1,2))
  moreover have "save_requests (as @ tr) = replicate (length ps) (suggested env)"
    "done_statuses (as @ tr) = []" "saved_paths (as @ tr) = []"
    using merge_actions_silent [OF as]
    by (simp_all add: save_requests_simps done_statuses_simps saved_paths_simps tr)
  ultimately show ?thesis
    by blast
qed

text \<open>
  C5, as the code has it. In a run of the primary strategy that comes to the save
  handshake (the start succeeds and the run is not cancelled), let the first \<open>k\<close> answers
  be paths whose save fails. Every request carries the same suggested name, each
  failed save is followed by a request again, and a failed save puts no status: the
  first \<open>k + 1\<close> requests are there whatever follows, and when no further answer comes
  the run has put exactly \<open>k + 1\<close> requests and no status. When the next answer is an
  abort, there are exactly \<open>k + 1\<close> requests, nothing is saved, and the status is
  \<open>NoSave\<close>, put after \<open>Close(SaveChanges=False)\<close> and \<open>Quit\<close>, if both calls return; if one
  of them raises, the status is \<open>Error\<close>. When the next answer is a path whose save
  succeeds, there are exactly \<open>k + 1\<close> requests, that path is saved, and the status is
  \<open>Saved\<close> if \<open>Close\<close> and \<open>Quit\<close> return and \<open>Error\<close> if one of them raises. So two failing
  paths and then a valid one give exactly three requests, and status \<open>Saved\<close> when
  \<open>Close\<close> and \<open>Quit\<close> return.
\<close>

theorem save_handshake:
  assumes "start env = Inr names" and "\<not> cancel_after env"
    and "rounds env = map (\<lambda>p. Some (p, False)) ps @ rest"
  shows "set (save_requests (run L (Com env))) \<subseteq> {suggested env} \<and>
         take (Suc (length ps)) (save_requests (run L (Com env)))
           = replicate (Suc (length ps)) (suggested env) \<and>
         (rest = [] \<longrightarrow>
            save_requests (run L (Com env)) = replicate (Suc (length ps)) (suggested env) \<and>
            done_statuses (run L (Com env)) = [] \<and>
            saved_paths (run L (Com env)) = []) \<and>
         (\<forall>later. rest = None # later \<longrightarrow>
            save_requests (run L (Com env)) = replicate (Suc (length ps)) (suggested env) \<and>
            saved_paths (run L (Com env)) = [] \<and>
            done_statuses (run L (Com env)) = [if close_ok env \<and> quit_ok env then NoSave else Error] \<and>
            (close_ok env \<and> quit_ok env \<longrightarrow>
               (\<exists>tr. run L (Com env) = tr @ [Close_unsaved, Quit, Put (Done NoSave)]))) \<and>
         (\<forall>p later. rest = Some (p, True) # later \<longrightarrow>
            save_requests (run L (Com env)) = replicate (Suc (length ps)) (suggested env) \<and>
            saved_paths (run L (Com env)) = [p] \<and>
            done_statuses (run L (Com env)) = [if close_ok env \<and> quit_ok env then Saved else Error]) \<and>
         (\<forall>p1 p2 p3. ps = [p1, p2] \<and> rest = [Some (p3, True)] \<and> close_ok env \<and> quit_ok env \<longrightarrow>
            save_requests (run L (Com env)) = [suggested env, suggested env, suggested env] \<and>
            done_statuses (run L (Com env)) = [Saved])"
proof -
  let ?s = "suggested env"
  let ?k = "length ps"
  let ?H = "\<lambda>rs. fst (save_loop L ?s (close_ok env) (quit_ok env) rs)
                  @ handled (snd (save_loop L ?s (close_ok env) (quit_ok env) rs))"
  obtain as where run: "run L (Com env) = as @ ?H rest"
    and as: "save_requests as = replicate ?k ?s" "done_statuses as = []" "saved_paths as = []"
    using run_handshake [OF assms, of L] by auto
  have more: "replicate ?k ?s @ [?s] = replicate (Suc ?k) ?s"
    by (simp add: replicate_append_same)
  have same: "set (save_requests (run L (Com env))) \<subseteq> {?s}"
    using save_loop_same_request [of L ?s "close_ok env" "quit_ok env" rest]
    by (auto simp: run save_requests_simps as handled_silent)
  obtain tr where first: "fst (save_loop L ?s (close_ok env) (quit_ok env) rest) = Put (Request_save ?s) # tr"
    using save_loop_first [of L ?s "close_ok env" "quit_ok env" rest] by blast
  have "take (Suc ?k) (save_requests (run L (Com env))) = replicate ?k ?s @ [?s]"
    by (simp add: run first save_requests_simps as)
  then have least: "take (Suc ?k) (save_requests (run L (Com env))) = replicate (Suc ?k) ?s"
    by (simp only: more)
  have waits: "save_requests (run L (Com env)) = replicate (Suc ?k) ?s \<and>
      done_statuses (run L (Com env)) = [] \<and> saved_paths (run L (Com env)) = []"
    if "rest = []"
    unfolding run that handshake_waits
    by (simp add: save_requests_simps done_statuses_simps saved_paths_simps as more
        del: replicate.simps)
  have abort: "save_requests (run L (Com env)) = replicate (Suc ?k) ?s \<and>
      saved_paths (run L (Com env)) = [] \<and>
      done_statuses (run L (Com env)) = [if close_ok env \<and> quit_ok env then NoSave else Error] \<and>
      (close_ok env \<and> quit_ok env \<longrightarrow>
         (\<exists>tr. run L (Com env) = tr @ [Close_unsaved, Quit, Put (Done NoSave)]))"
    if "rest = None # later" for later
  proof -
    have "run L (Com env) =
        (as @ [Put (Request_save ?s), Put (Log Save_declined)]) @ [Close_unsaved, Quit, Put (Done NoSave)]"
      if "close_ok env \<and> quit_ok env"
      unfolding run \<open>rest = None # later\<close> handshake_abort using that by simp
    then have "close_ok env \<and> quit_ok env \<longrightarrow>
        (\<exists>tr. run L (Com env) = tr @ [Close_unsaved, Quit, Put (Done NoSave)])"
      by blast
    moreover have "save_requests (run L (Com env)) = replicate (Suc ?k) ?s"
      "saved_paths (run L (Com env)) = []"
      "done_statuses (run L (Com env)) = [if close_ok env \<and> quit_ok env then NoSave else Error]"
      unfolding run that handshake_abort
      by (simp_all add: save_requests_simps done_statuses_simps saved_paths_simps as more
          del: replicate.simps)
    ultimately show ?thesis
      by blast
  qed
  have success: "save_requests (run L (Com env)) = replicate (Suc ?k) ?s \<and>
      saved_paths (run L (Com env)) = [p] \<and>
      done_statuses (run L (Com env)) = [if close_ok env \<and> quit_ok env then Saved else Error]"
    if "rest = Some (p, True) # later" for p later
    unfolding run that handshake_success
    by (simp add: save_requests_simps done_statuses_simps saved_paths_simps as more
        del: replicate.simps)
  have three: "save_requests (run L (Com env)) = [?s, ?s, ?s] \<and> done_statuses (run L (Com env)) = [Saved]"
    if "ps = [p1, p2] \<and> rest = [Some (p3, True)] \<and> close_ok env \<and> quit_ok env" for p1 p2 p3
    using success [of p3 "[]"] that by simp
  show ?thesis
    using same least waits abort success three by blast
qed

theorem save_handshake_witness:
  "save_requests (run ascii_lib (Com example_env))
     = [lit ''merged.xlsx'', lit ''merged.xlsx'', lit ''merged.xlsx''] \<and>
   done_statuses (run ascii_lib (Com example_env)) = [Saved] \<and>
   saved_paths (run ascii_lib (Com example_env)) = [lit ''o/c.xlsx'']"
proof -
  have "start example_env = Inr [lit ''Sheet1'']" and "\<not> cancel_after example_env"
    and "rounds example_env =
      map (\<lambda>p. Some (p, False)) [lit ''o/a.xlsx'', lit ''o/b.xlsx''] @ [Some (lit ''o/c.xlsx'', True)]"
    by (simp_all add: example_env_def)
  from save_handshake [OF this, of ascii_lib]
  have "save_requests (run ascii_lib (Com example_env))
      = replicate (Suc (length [lit ''o/a.xlsx'', lit ''o/b.xlsx''])) (suggested example_env)"
    and "saved_paths (run ascii_lib (Com example_env)) = [lit ''o/c.xlsx'']"
    and "done_statuses (run ascii_lib (Com example_env))
      = [if close_ok example_env \<and> quit_ok example_env then Saved else Error]"
    by blast+
  then show ?thesis
    by (simp add: example_env_def numeral_3_eq_3)
qed

text \<open>
  C5, as the claim states it, fails where \<open>Close\<close> or \<open>Quit\<close> raises: an abort answer is
  then followed by status \<open>Error\<close>, not \<open>NoSave\<close>; and two failing paths followed by a
  valid one give three requests and a saved workbook, but status \<open>Error\<close>, not \<open>Saved\<close>.
\<close>

theorem save_handshake_counterexample:
  "done_statuses (run ascii_lib (Com (example_env\<lparr>rounds := [None], close_ok := False\<rparr>)))
     = [Error] \<and>
   done_statuses (run ascii_lib (Com (example_env\<lparr>quit_ok := False\<rparr>))) = [Error] \<and>
   saved_paths (run ascii_lib (Com (example_env\<lparr>quit_ok := False\<rparr>))) = [lit ''o/c.xlsx'']"
proof -
  let ?a = "example_env\<lparr>rounds := [None], close_ok := False\<rparr>"
  let ?b = "example_env\<lparr>quit_ok := False\<rparr>"
  have a: "start ?a = Inr [lit ''Sheet1'']" "\<not> cancel_after ?a"
    "rounds ?a = map (\<lambda>p. Some (p, False)) [] @ [None]"
    and b: "start ?b = Inr [lit ''Sheet1'']" "\<not> cancel_after ?b"
    "rounds ?b =
      map (\<lambda>p. Some (p, False)) [lit ''o/a.xlsx'', lit ''o/b.xlsx''] @ [Some (lit ''o/c.xlsx'', True)]"
    by (simp_all add: example_env_def)
  obtain as where "run ascii_lib (Com ?a) =
      as @ fst (save_loop ascii_lib (suggested ?a) (close_ok ?a) (quit_ok ?a) [None])
         @ handled (snd (save_loop ascii_lib (suggested ?a) (close_ok ?a) (quit_ok ?a) [None]))"
    and "done_statuses as = []"
    using run_handshake [OF a, of ascii_lib] by auto
  then have 1: "done_statuses (run ascii_lib (Com ?a)) = [Error]"
    by (simp add: handshake_abort done_statuses_simps example_env_def del: save_loop.simps)
  obtain bs where "run ascii_lib (Com ?b) =
      bs @ fst (save_loop ascii_lib (suggested ?b) (close_ok ?b) (quit_ok ?b) [Some (lit ''o/c.xlsx'', True)])
         @ handled (snd (save_loop ascii_lib (suggested ?b) (close_ok ?b) (quit_ok ?b)
              [Some (lit ''o/c.xlsx'', True)]))"
    and "done_statuses bs = []" "saved_paths bs = []"
    using run_handshake [OF b, of ascii_lib] by auto
  then have 2: "done_statuses (run ascii_lib (Com ?b)) = [Error]"
    "saved_paths (run ascii_lib (Com ?b)) = [lit ''o/c.xlsx'']"
    by (simp_all add: handshake_success done_statuses_simps saved_paths_simps example_env_def
        del: save_loop.simps)
  show ?thesis
    using 1 2 by simp
qed

end
